theory Spec2Isabelle
  imports Complex_Main "HOL-Library.Word"
begin

unbundle bit_operations_syntax

section \<open>Big integers (the jsbi library) as \<open>int\<close>\<close>

text \<open>
  The program computes on arbitrary-precision integers of the jsbi library, modelled as
  \<^typ>\<open>int\<close>. \<open>BI.divide\<close> and \<open>BI.remainder\<close> truncate towards zero (the
  remainder takes the sign of the dividend) and raise a RangeError on a zero divisor;
  the two functions below are used where the divisor is known to be nonzero, and
  \<open>BI_remainder_checked\<close> where it is not.
\<close>

datatype error = RangeError string | SyntaxError string

definition BI_divide :: "int \<Rightarrow> int \<Rightarrow> int" where
  "BI_divide a b = sgn a * sgn b * (\<bar>a\<bar> div \<bar>b\<bar>)"

definition BI_remainder :: "int \<Rightarrow> int \<Rightarrow> int" where
  "BI_remainder a b = sgn a * (\<bar>a\<bar> mod \<bar>b\<bar>)"

definition BI_remainder_checked :: "int \<Rightarrow> int \<Rightarrow> error + int" where
  "BI_remainder_checked a b =
     (if b = 0 then Inl (RangeError ''Division by zero'') else Inr (BI_remainder a b))"

definition ZERO :: int where "ZERO = 0"
definition ONE :: int where "ONE = 1"
definition TWO :: int where "TWO = 2"

definition abs_BI :: "int \<Rightarrow> int" where
  "abs_BI x = (if x \<ge> ZERO then x else - x)"

text \<open>
  \<open>toString\<close> of a big integer in a radix from 2 to 36: lower-case digits, most
  significant first, a minus sign before a negative number.
\<close>

definition digit_char :: "nat \<Rightarrow> char" where
  "digit_char d = ''0123456789abcdefghijklmnopqrstuvwxyz'' ! d"

function digits_toString :: "int \<Rightarrow> int \<Rightarrow> string" where
  "digits_toString radix n =
     (if radix < 2 \<or> n < 0 then []
      else if n < radix then [digit_char (nat n)]
      else digits_toString radix (n div radix) @ [digit_char (nat (n mod radix))])"
  by pat_completeness auto
termination
proof (relation "measure (\<lambda>(radix, n). nat n)")
  show "wf (measure (\<lambda>(radix, n). nat n))"
    by simp
next
  fix radix n :: int
  assume "\<not> (radix < 2 \<or> n < 0)" and "\<not> n < radix"
  then have "n div radix < n" and "0 < n"
    by (simp_all add: int_div_less_self)
  then show "((radix, n div radix), (radix, n)) \<in> measure (\<lambda>(radix, n). nat n)"
    by simp
qed

declare digits_toString.simps [simp del]

definition BI_toString :: "int \<Rightarrow> int \<Rightarrow> string" where
  "BI_toString radix i =
     (if i < 0 then CHR ''-'' # digits_toString radix (- i) else digits_toString radix i)"

section \<open>ModularArithmetic.ts\<close>

record Egcd =
  Egcd_g :: int
  Egcd_x :: int
  Egcd_y :: int

text \<open>The while loop of \<open>eGcd\<close>; the parameters are the loop's variables.\<close>

function eGcd_loop :: "int \<Rightarrow> int \<Rightarrow> int \<Rightarrow> int \<Rightarrow> int \<Rightarrow> int \<Rightarrow> Egcd" where
  "eGcd_loop a b x y u v =
     (if a \<noteq> ZERO then
        (let q = BI_divide b a;
             r = BI_remainder b a;
             m = x - u * q;
             n = y - v * q
         in eGcd_loop r a u v m n)
      else \<lparr>Egcd_g = b, Egcd_x = x, Egcd_y = y\<rparr>)"
  by pat_completeness auto
termination
proof (relation "measure (\<lambda>(a, b, x, y, u, v). nat \<bar>a\<bar>)")
  show "wf (measure (\<lambda>(a, b, x, y, u, v). nat \<bar>a\<bar>))"
    by simp
next
  fix a b x y u v :: int and q r m n :: int
  assume "a \<noteq> ZERO" and "r = BI_remainder b a"
  then have "\<bar>r\<bar> < \<bar>a\<bar>"
    by (simp add: BI_remainder_def ZERO_def abs_mult abs_sgn_eq)
  then show "((r, a, u, v, m, n), (a, b, x, y, u, v))
               \<in> measure (\<lambda>(a, b, x, y, u, v). nat \<bar>a\<bar>)"
    by simp
qed

declare eGcd_loop.simps [simp del]

definition eGcd :: "int \<Rightarrow> int \<Rightarrow> error + Egcd" where
  "eGcd a b =
     (if a \<le> ZERO \<or> b \<le> ZERO then Inl (RangeError ''a and b MUST be > 0'')
      else Inr (eGcd_loop a b ZERO ONE ONE ZERO))"

definition toZn :: "int \<Rightarrow> int \<Rightarrow> error + int" where
  "toZn x N =
     (if N \<le> ZERO then Inl (RangeError ''n must be > 0'')
      else (let aZn = BI_remainder x N in Inr (if aZn < ZERO then aZn + N else aZn)))"

definition modInv :: "int \<Rightarrow> int \<Rightarrow> error + int" where
  "modInv a n =
     (case toZn a n of
        Inl e \<Rightarrow> Inl e
      | Inr a' \<Rightarrow>
          (case eGcd a' n of
             Inl e \<Rightarrow> Inl e
           | Inr egcd \<Rightarrow>
               if Egcd_g egcd \<noteq> ONE then
                 Inl (RangeError (BI_toString 10 a @ '' does not have inverse modulo ''
                        @ BI_toString 10 n))
               else toZn (Egcd_x egcd) n))"

text \<open>
  The while loop of \<open>modPow\<close>; \<open>BI.exponentiate(base, TWO)\<close> is the square.
\<close>

function modPow_loop :: "int \<Rightarrow> int \<Rightarrow> int \<Rightarrow> int \<Rightarrow> int" where
  "modPow_loop result base currExp N =
     (if currExp > ZERO then
        modPow_loop
          (if BI_remainder currExp TWO = ONE then BI_remainder (result * base) N else result)
          (BI_remainder (base ^ 2) N)
          (BI_divide currExp TWO)
          N
      else result)"
  by pat_completeness auto
termination
  by (relation "measure (\<lambda>(result, base, currExp, N). nat currExp)")
     (auto simp: BI_divide_def ZERO_def TWO_def)

declare modPow_loop.simps [simp del]

text \<open>
  \<open>modPow\<close> calls itself when the exponent is not positive, and nothing in its text bounds
  that recursion, so it is defined as a partial function: \<open>None\<close> is a call that never
  returns, \<open>Some (Inl e)\<close> a thrown exception and \<open>Some (Inr r)\<close> a returned value.
\<close>

partial_function (option) modPow :: "int \<Rightarrow> int \<Rightarrow> int \<Rightarrow> (error + int) option" where
  "modPow x y N =
     (if N \<le> ONE then Some (Inl (RangeError ''n must be > 1''))
      else
        (case toZn x N of
           Inl e \<Rightarrow> Some (Inl e)
         | Inr base \<Rightarrow>
             if y \<le> ZERO then
               Option.bind (modPow base (abs_BI y) N)
                 (\<lambda>r. case r of Inl e \<Rightarrow> Some (Inl e) | Inr p \<Rightarrow> Some (modInv p N))
             else Some (Inr (modPow_loop ONE base y N))))"

declare modPow.simps [code]

text \<open>Reading an outcome: did the call throw.\<close>

definition throws :: "(error + 'a) option \<Rightarrow> bool" where
  "throws r = (case r of Some (Inl e) \<Rightarrow> True | _ \<Rightarrow> False)"

section \<open>StringUtils.ts\<close>

text \<open>
  A JavaScript string is modelled as a \<^typ>\<open>string\<close>, one \<^typ>\<open>char\<close> for each code unit
  (code units up to 255; base64 and hexadecimal text is ASCII). A \<open>Uint8Array\<close> is a list
  of bytes.
\<close>

type_synonym byte = "8 word"

text \<open>
  Modelled from the spec: the module \<open>Constants\<close>, which exports \<open>BASE64\<close> and
  \<open>HEX_DIGITS\<close>, is not among the sources. The spec fixes the standard base64 alphabet
  with \<open>=\<close> padding; \<open>HEX_DIGITS\<close> is taken to be the sixteen hexadecimal digits in
  order (its letter case does not matter: it only feeds \<open>BI.BigInt\<close>, which reads both).
\<close>

definition BASE64 :: string where
  "BASE64 = ''ABCDEFGHIJKLMNOPQRSTUVWXYZabcdefghijklmnopqrstuvwxyz0123456789+/''"

definition HEX_DIGITS :: string where
  "HEX_DIGITS = ''0123456789abcdef''"

subsection \<open>What the program uses of the platform\<close>

text \<open>
  A JavaScript number that may be \<open>NaN\<close> is an \<^typ>\<open>int option\<close>, \<open>None\<close> for
  \<open>NaN\<close>. \<open>charCodeAt\<close> past the end of the string is \<open>NaN\<close>. The bitwise operators
  convert their operands with ToInt32, which takes \<open>NaN\<close> to 0; the operands met here are
  char codes moved by at most 71 and shifted by at most 6 bits, far inside the 32-bit range,
  so the wrap-around of ToInt32 is not written out. \<open>+\<close> with a \<open>NaN\<close> operand is
  \<open>NaN\<close>. Storing into a \<open>Uint8Array\<close> reduces modulo 256, stores 0 for \<open>NaN\<close>, and
  does nothing when the index is past the end.
\<close>

definition charCodeAt :: "string \<Rightarrow> nat \<Rightarrow> int option" where
  "charCodeAt inp i = (if i < length inp then Some (of_char (inp ! i)) else None)"

definition ToInt32 :: "int option \<Rightarrow> int" where
  "ToInt32 v = (case v of None \<Rightarrow> 0 | Some n \<Rightarrow> n)"

definition js_shl :: "int option \<Rightarrow> nat \<Rightarrow> int option" where
  "js_shl v n = Some (push_bit n (ToInt32 v))"

definition js_shr :: "int option \<Rightarrow> nat \<Rightarrow> int option" where
  "js_shr v n = Some (drop_bit n (ToInt32 v))"

definition js_and :: "int option \<Rightarrow> int \<Rightarrow> int option" where
  "js_and v m = Some (ToInt32 v AND m)"

definition js_add :: "int option \<Rightarrow> int option \<Rightarrow> int option" where
  "js_add v w = (case v of None \<Rightarrow> None | Some a \<Rightarrow> (case w of None \<Rightarrow> None | Some b \<Rightarrow> Some (a + b)))"

definition ToUint8 :: "int option \<Rightarrow> byte" where
  "ToUint8 v = (case v of None \<Rightarrow> 0 | Some n \<Rightarrow> word_of_int n)"

definition store :: "byte list \<Rightarrow> nat \<Rightarrow> int option \<Rightarrow> byte list" where
  "store result i v = result[i := ToUint8 v]"

text \<open>
  \<open>new Uint8Array(len)\<close> truncates a fractional length towards zero and fills with
  zeroes. A length of -1 or less would raise a RangeError; \<open>arrayOfBase64\<close> never asks
  for one (lemma \<open>resultLength_bound\<close>), so the constructor is modelled without it.
\<close>

definition new_Uint8Array :: "rat \<Rightarrow> byte list" where
  "new_Uint8Array len = replicate (nat \<lfloor>len\<rfloor>) 0"

text \<open>
  White space and line terminators of JavaScript, among the code units up to 255: the
  characters 9 to 13, the space and the no-break space; the line terminators are 10 and 13.
\<close>

definition is_whitespace :: "char \<Rightarrow> bool" where
  "is_whitespace c =
     (let n = (of_char c :: nat) in (9 \<le> n \<and> n \<le> 13) \<or> n = 32 \<or> n = 160)"

definition is_line_terminator :: "char \<Rightarrow> bool" where
  "is_line_terminator c = (let n = (of_char c :: nat) in n = 10 \<or> n = 13)"

definition trim :: "string \<Rightarrow> string" where
  "trim s = rev (dropWhile is_whitespace (rev (dropWhile is_whitespace s)))"

text \<open>
  The value of a digit in a radix up to 16 (either letter case), the value of a string of
  digits, and the test that a character is a digit of the radix.
\<close>

definition hex_digit_value :: "char \<Rightarrow> int option" where
  "hex_digit_value c =
     (let n = (of_char c :: int) in
      if 48 \<le> n \<and> n \<le> 57 then Some (n - 48)
      else if 97 \<le> n \<and> n \<le> 102 then Some (n - 87)
      else if 65 \<le> n \<and> n \<le> 70 then Some (n - 55)
      else None)"

definition digits_value :: "int \<Rightarrow> string \<Rightarrow> int" where
  "digits_value radix ds = foldl (\<lambda>acc c. acc * radix + the (hex_digit_value c)) 0 ds"

definition is_digit_of :: "int \<Rightarrow> char \<Rightarrow> bool" where
  "is_digit_of radix c = (case hex_digit_value c of None \<Rightarrow> False | Some d \<Rightarrow> d < radix)"

text \<open>
  \<open>BI.BigInt\<close> of a string. The library is not part of the repository; it reads what
  the language's own \<open>BigInt\<close> reads, and the definition follows that grammar: white
  space around the text is dropped; the empty text is 0; \<open>0x\<close>, \<open>0o\<close> or \<open>0b\<close> (either
  case) is followed by at least one digit of the radix and takes no sign; otherwise the
  text is decimal digits, with one sign before them if any. Every other string is a
  SyntaxError, whose message quotes the string as it was given; so is \<open>0x\<close> with no
  digit after it.
\<close>

definition digits_or_error :: "string \<Rightarrow> int \<Rightarrow> int \<Rightarrow> string \<Rightarrow> error + int" where
  "digits_or_error s sign radix ds =
     (if ds \<noteq> [] \<and> list_all (is_digit_of radix) ds then Inr (sign * digits_value radix ds)
      else Inl (SyntaxError (''Cannot convert '' @ s @ '' to a BigInt'')))"

definition BI_BigInt :: "string \<Rightarrow> error + int" where
  "BI_BigInt s =
     (let t = trim s
      in if t = [] then Inr 0
         else if take 2 t = ''0x'' \<or> take 2 t = ''0X'' then digits_or_error s 1 16 (drop 2 t)
         else if take 2 t = ''0o'' \<or> take 2 t = ''0O'' then digits_or_error s 1 8 (drop 2 t)
         else if take 2 t = ''0b'' \<or> take 2 t = ''0B'' then digits_or_error s 1 2 (drop 2 t)
         else if take 1 t = ''-'' then digits_or_error s (- 1) 10 (drop 1 t)
         else if take 1 t = ''+'' then digits_or_error s 1 10 (drop 1 t)
         else digits_or_error s 1 10 t)"

text \<open>
  \<open>parseInt(h, 16)\<close>: leading white space is dropped, then one sign and one prefix
  \<open>0x\<close> are read if they are there; the value is that of the longest run of hexadecimal
  digits that follows, with the sign, and \<open>NaN\<close> when the run is empty.
\<close>

definition parseInt16 :: "string \<Rightarrow> int option" where
  "parseInt16 h =
     (let t = dropWhile is_whitespace h;
          sign = (if take 1 t = ''-'' then - 1 else 1);
          t = (if take 1 t = ''-'' \<or> take 1 t = ''+'' then drop 1 t else t);
          t = (if take 2 t = ''0x'' \<or> take 2 t = ''0X'' then drop 2 t else t);
          ds = takeWhile (is_digit_of 16) t
      in if ds = [] then None else Some (sign * digits_value 16 ds))"

text \<open>\<open>toUpperCase\<close>, on the ASCII letters (the program applies it to hexadecimal text).\<close>

definition toUpperCase :: "string \<Rightarrow> string" where
  "toUpperCase s =
     map (\<lambda>c. let n = (of_char c :: nat) in if 97 \<le> n \<and> n \<le> 122 then char_of (n - 32) else c) s"

subsection \<open>Hexadecimal text\<close>

text \<open>
  \<open>inp.match(/../g)\<close>: the matches of two characters, from left to right and without
  overlap. The dot of the pattern matches every character but a line terminator, so a
  position where one of the two characters is a line terminator is skipped.
  \<open>hexOfArray\<close> writes each byte with \<open>toString(16)\<close>.
\<close>

fun match_pairs :: "string \<Rightarrow> string list" where
  "match_pairs (a # b # rest) =
     (if is_line_terminator a \<or> is_line_terminator b then match_pairs (b # rest)
      else [a, b] # match_pairs rest)"
| "match_pairs _ = []"

definition padZeroPrefix :: "string \<Rightarrow> string" where
  "padZeroPrefix inp = (if length inp = 1 then CHR ''0'' # inp else inp)"

definition hexOfArray :: "byte list \<Rightarrow> string" where
  "hexOfArray inp =
     foldl (\<lambda>result b. result @ padZeroPrefix (BI_toString 16 (uint b))) [] inp"

definition hexOfBuff :: "byte list \<Rightarrow> string" where
  "hexOfBuff inp = hexOfArray inp"

definition prefixedHexOfArray :: "byte list \<Rightarrow> string" where
  "prefixedHexOfArray inp =
     ''0x'' @ concat (map (\<lambda>b. [HEX_DIGITS ! drop_bit 4 (unat b), HEX_DIGITS ! (unat b AND 15)]) inp)"

definition prefixedHexOfBuff :: "byte list \<Rightarrow> string" where
  "prefixedHexOfBuff inp =
     ''0x'' @ concat (map (\<lambda>b. [HEX_DIGITS ! drop_bit 4 (unat b), HEX_DIGITS ! (unat b AND 15)]) inp)"

definition nonprefixedHexOfPositiveBI :: "int \<Rightarrow> string" where
  "nonprefixedHexOfPositiveBI inp =
     (let str = BI_toString 16 inp
      in if length str mod 2 = 0 then str
         else if take 1 str = ''0'' then drop 1 str
         else CHR ''0'' # str)"

text \<open>The counting loop of \<open>trimHexZeroes\<close>.\<close>

function countZeroes_loop :: "string \<Rightarrow> nat \<Rightarrow> nat" where
  "countZeroes_loop inp countZeroes =
     (if countZeroes < length inp \<and> inp ! countZeroes = CHR ''0''
      then countZeroes_loop inp (countZeroes + 1)
      else countZeroes)"
  by pat_completeness auto
termination
  by (relation "measure (\<lambda>(inp, countZeroes). length inp - countZeroes)") auto

declare countZeroes_loop.simps [simp del]

definition trimHexZeroes :: "string \<Rightarrow> string" where
  "trimHexZeroes inp =
     (let countZeroes = countZeroes_loop inp 0
      in if countZeroes > 0 then
           (if (length inp - countZeroes) mod 2 = 0
            then drop countZeroes inp
            else drop (countZeroes - 1) inp)
         else
           (if length inp mod 2 = 0 then inp else CHR ''0'' # inp))"

subsection \<open>Base64\<close>

text \<open>
  The loop of \<open>base64OfArray\<close> over the whole groups of three bytes. The reads
  \<open>inp[i*3]\<close>, \<open>inp[i*3 + 1]\<close> and \<open>inp[i*3 + 2]\<close> are inside the array, since
  \<open>i < numWhole\<close>.
\<close>

function base64OfArray_loop :: "byte list \<Rightarrow> nat \<Rightarrow> nat \<Rightarrow> string \<Rightarrow> string" where
  "base64OfArray_loop inp numWhole i result =
     (if i < numWhole then
        base64OfArray_loop inp numWhole (i + 1)
          (result
           @ [BASE64 ! drop_bit 2 (unat (inp ! (i * 3)))]
           @ [BASE64 ! (push_bit 4 (unat (inp ! (i * 3)) AND 3) + drop_bit 4 (unat (inp ! (i * 3 + 1))))]
           @ [BASE64 ! (push_bit 2 (unat (inp ! (i * 3 + 1)) AND 15) + drop_bit 6 (unat (inp ! (i * 3 + 2))))]
           @ [BASE64 ! (unat (inp ! (i * 3 + 2)) AND 63)])
      else result)"
  by pat_completeness auto
termination
  by (relation "measure (\<lambda>(inp, numWhole, i, result). numWhole - i)") auto

declare base64OfArray_loop.simps [simp del]

definition base64OfArray :: "byte list \<Rightarrow> string" where
  "base64OfArray inp =
     (let numWhole = length inp div 3;
          extraBytes = length inp - numWhole * 3;
          result = base64OfArray_loop inp numWhole 0 [];
          i = numWhole;
          result =
            (if extraBytes = 1 then
               result
               @ [BASE64 ! drop_bit 2 (unat (inp ! (i * 3)))]
               @ [BASE64 ! push_bit 4 (unat (inp ! (i * 3)) AND 3)]
             else if extraBytes = 2 then
               result
               @ [BASE64 ! drop_bit 2 (unat (inp ! (i * 3)))]
               @ [BASE64 ! (push_bit 4 (unat (inp ! (i * 3)) AND 3) + drop_bit 4 (unat (inp ! (i * 3 + 1))))]
               @ [BASE64 ! push_bit 2 (unat (inp ! (i * 3 + 1)) AND 15)]
             else result)
      in if extraBytes > 0 then result @ replicate (3 - extraBytes) CHR ''='' else result)"

definition base64OfHex :: "string \<Rightarrow> string" where
  "base64OfHex inp =
     (let matchArray = match_pairs inp
      in if matchArray = [] then []
         else base64OfArray (map (\<lambda>h. ToUint8 (parseInt16 h)) matchArray))"

definition base64OfBigInt :: "int \<Rightarrow> string" where
  "base64OfBigInt inp = base64OfHex (nonprefixedHexOfPositiveBI inp)"

definition num64OfBase64 :: "int option \<Rightarrow> int option" where
  "num64OfBase64 charCode =
     (case charCode of
        None \<Rightarrow> None
      | Some c \<Rightarrow>
          Some (if c = 43 then 62
                else if c = 47 then 63
                else if c \<le> 57 then c + 4
                else if c \<le> 90 then c - 65
                else c - 71))"

function determinePadding_loop :: "string \<Rightarrow> int \<Rightarrow> nat \<Rightarrow> nat" where
  "determinePadding_loop inp i result =
     (if i > - 1 \<and> inp ! nat i = CHR ''=''
      then determinePadding_loop inp (i - 1) (result + 1)
      else result)"
  by pat_completeness auto
termination
  by (relation "measure (\<lambda>(inp, i, result). nat (i + 1))") auto

declare determinePadding_loop.simps [simp del]

definition determinePadding :: "string \<Rightarrow> nat" where
  "determinePadding inp = determinePadding_loop inp (int (length inp) - 1) 0"

text \<open>
  The loop of \<open>arrayOfBase64\<close> over the full groups of four characters. \<open>fullQuads\<close> is
  a fraction when the length of the input is not a multiple of four. The loop returns its
  counter with the array, for the code after it.
\<close>

function arrayOfBase64_loop :: "string \<Rightarrow> rat \<Rightarrow> nat \<Rightarrow> byte list \<Rightarrow> nat \<times> byte list" where
  "arrayOfBase64_loop inp fullQuads i result =
     (if of_nat i < fullQuads then
        (let int1 = num64OfBase64 (charCodeAt inp (i * 4));
             int2 = num64OfBase64 (charCodeAt inp (i * 4 + 1));
             int3 = num64OfBase64 (charCodeAt inp (i * 4 + 2));
             int4 = num64OfBase64 (charCodeAt inp (i * 4 + 3));
             result = store result (i * 3) (js_add (js_shl int1 2) (js_shr int2 4));
             result = store result (i * 3 + 1) (js_add (js_shl (js_and int2 15) 4) (js_shr int3 2));
             result = store result (i * 3 + 2) (js_add (js_shl (js_and int3 3) 6) int4)
         in arrayOfBase64_loop inp fullQuads (i + 1) result)
      else (i, result))"
  by pat_completeness auto
termination
proof (relation "measure (\<lambda>(inp, fullQuads, i, result). nat \<lceil>fullQuads\<rceil> - i)")
  show "wf (measure (\<lambda>(inp, fullQuads, i, result). nat \<lceil>fullQuads\<rceil> - i))"
    by simp
next
  fix inp :: string and fullQuads :: rat and i :: nat and result result' :: "byte list"
  assume "of_nat i < fullQuads"
  then have "int i < \<lceil>fullQuads\<rceil>"
    by (simp add: less_ceiling_iff)
  then show "((inp, fullQuads, i + 1, result'), (inp, fullQuads, i, result))
               \<in> measure (\<lambda>(inp, fullQuads, i, result). nat \<lceil>fullQuads\<rceil> - i)"
    by simp
qed

declare arrayOfBase64_loop.simps [simp del]

definition arrayOfBase64 :: "string \<Rightarrow> byte list" where
  "arrayOfBase64 inp =
     (let paddingChars = determinePadding inp;
          resultLength =
            (if paddingChars = 0 then of_nat (length inp) / 4 * 3
             else if paddingChars = 1 then of_nat (length inp) / 4 * 3 - 1
             else of_nat (length inp) / 4 * 3 - 2);
          result = new_Uint8Array resultLength;
          fullQuads = (if paddingChars = 0 then of_nat (length inp) / 4
                       else of_nat (length inp) / 4 - 1);
          (i, result) = arrayOfBase64_loop inp fullQuads 0 result
      in if paddingChars = 1 then
           (let int1 = num64OfBase64 (charCodeAt inp (i * 4));
                int2 = num64OfBase64 (charCodeAt inp (i * 4 + 1));
                result = store result (i * 3) (js_add (js_shl int1 2) (js_shr int2 4));
                int3 = num64OfBase64 (charCodeAt inp (i * 4 + 2));
                result = store result (i * 3 + 1) (js_add (js_shl (js_and int2 15) 4) (js_shr int3 2))
            in result)
         else if paddingChars = 2 then
           (let int1 = num64OfBase64 (charCodeAt inp (i * 4));
                int2 = num64OfBase64 (charCodeAt inp (i * 4 + 1));
                result = store result (i * 3) (js_add (js_shl int1 2) (js_shr int2 4))
            in result)
         else result)"

definition hexOfBase64 :: "string \<Rightarrow> string" where
  "hexOfBase64 inp = trimHexZeroes (hexOfArray (arrayOfBase64 inp))"

definition bigintOfBase64 :: "string \<Rightarrow> error + int" where
  "bigintOfBase64 inp =
     (let byteArr = arrayOfBase64 inp;
          prefixedHex =
            ''0x'' @ concat (map (\<lambda>b. [HEX_DIGITS ! drop_bit 4 (unat b), HEX_DIGITS ! (unat b AND 15)]) byteArr)
      in BI_BigInt prefixedHex)"

section \<open>The SRP client (class SecureRemotePassword)\<close>

text \<open>
  The fields of the class, each under the name \<open>this_\<close> followed by its own. The
  constructor reads \<open>N\<close>, \<open>g\<close> and \<open>k\<close> with \<open>BI.BigInt\<close>; the other fields start
  at the values of their initialisers.
\<close>

record session =
  this_verifier :: int
  this_I :: string
  this_S :: int
  this_B :: int
  this_P :: string
  this_K :: string
  this_AHex :: string
  this_M1Hex :: string
  this_salt :: string
  this_k :: int
  this_g :: int
  this_N :: int

definition constructor :: "string \<Rightarrow> string \<Rightarrow> string \<Rightarrow> error + session" where
  "constructor NStr gStr kHexStr =
     (case BI_BigInt NStr of
        Inl e \<Rightarrow> Inl e
      | Inr N \<Rightarrow>
          (case BI_BigInt gStr of
             Inl e \<Rightarrow> Inl e
           | Inr g \<Rightarrow>
               (case BI_BigInt kHexStr of
                  Inl e \<Rightarrow> Inl e
                | Inr k \<Rightarrow>
                    Inr \<lparr>this_verifier = ZERO, this_I = [], this_S = ZERO, this_B = ZERO,
                         this_P = [], this_K = [], this_AHex = [], this_M1Hex = [],
                         this_salt = [], this_k = k, this_g = g, this_N = N\<rparr>)))"

text \<open>
  What the class takes from the platform: the SHA-256 digest of the UTF-8 text of a
  string (32 bytes), the arrays that \<open>crypto.getRandomValues\<close> fills, and the clock.
  They are parameters of the model. The \<open>n\<close>-th pass of the loop of \<open>randomA\<close> gets the
  \<open>n\<close>-th random array and the \<open>n\<close>-th reading of the clock.
\<close>

record platform =
  digest_byte :: "string \<Rightarrow> nat \<Rightarrow> byte"
  random_byte :: "nat \<Rightarrow> nat \<Rightarrow> byte"
  getTime :: "nat \<Rightarrow> int"

definition hash :: "platform \<Rightarrow> string \<Rightarrow> byte list" where
  "hash E x = map (digest_byte E x) [0..<32]"

definition randomHex :: "platform \<Rightarrow> nat \<Rightarrow> nat \<Rightarrow> string" where
  "randomHex E n l = prefixedHexOfArray (map (random_byte E n) [0..<l])"

text \<open>
  \<open>ValResult<T>\<close>, the discriminated result \<open>{isOk: true, value}\<close> or
  \<open>{isOk: false, errMsg}\<close>, and the payload of a successful step 1.
\<close>

datatype 'a ValResult = Ok 'a | Fail string

record DataForSignIn =
  AB64 :: string
  M1B64 :: string

definition posMod :: "int \<Rightarrow> int \<Rightarrow> error + int" where
  "posMod inp N =
     (case BI_remainder_checked inp N of
        Inl e \<Rightarrow> Inl e
      | Inr rem \<Rightarrow> Inr (if rem \<ge> ZERO then rem else rem + N))"

definition computeSessionKey :: "session \<Rightarrow> int \<Rightarrow> int \<Rightarrow> int \<Rightarrow> (error + int) option" where
  "computeSessionKey s x u a =
     (let exp = a + u * x;
          kv = this_k s * this_verifier s
      in case posMod (this_B s - kv) (this_N s) of
           Inl e \<Rightarrow> Some (Inl e)
         | Inr diff \<Rightarrow> modPow diff exp (this_N s))"

definition generateX :: "platform \<Rightarrow> session \<Rightarrow> string \<Rightarrow> string \<Rightarrow> string \<Rightarrow> error + int" where
  "generateX E s saltHex identity pw =
     (let hash1 = hexOfBuff (hash E (identity @ '':'' @ pw));
          concat = toUpperCase (saltHex @ hash1);
          hashHex = prefixedHexOfBuff (hash E concat)
      in case BI_BigInt hashHex of
           Inl e \<Rightarrow> Inl e
         | Inr h \<Rightarrow> BI_remainder_checked h (this_N s))"

text \<open>\<open>computeU\<close> returns \<open>undefined\<close>, here \<open>None\<close>, when the digest is zero.\<close>

definition computeU :: "platform \<Rightarrow> string \<Rightarrow> string \<Rightarrow> error + int option" where
  "computeU E AHex BHex =
     (let output = prefixedHexOfBuff (hash E (AHex @ BHex))
      in case BI_BigInt output of
           Inl e \<Rightarrow> Inl e
         | Inr result \<Rightarrow> Inr (if result = ZERO then None else Some result))"

text \<open>
  The loop of \<open>randomA\<close> runs until a draw is not zero modulo \<open>N\<close>; nothing bounds it, so
  it is a partial function, \<open>None\<close> when it never ends.
\<close>

partial_function (option) randomA_loop :: "platform \<Rightarrow> session \<Rightarrow> nat \<Rightarrow> (error + int) option" where
  "randomA_loop E s n =
     (let rstr = randomHex E n 512
      in case BI_BigInt rstr of
           Inl e \<Rightarrow> Some (Inl e)
         | Inr rBi \<Rightarrow>
             (case BI_BigInt (prefixedHexOfBuff
                     (hash E (this_I s @ '':'' @ this_salt s @ '':'' @ BI_toString 10 (getTime E n)))) of
                Inl e \<Rightarrow> Some (Inl e)
              | Inr oneTimeBi \<Rightarrow>
                  (case BI_remainder_checked (oneTimeBi + rBi) (this_N s) of
                     Inl e \<Rightarrow> Some (Inl e)
                   | Inr r \<Rightarrow> if r = ZERO then randomA_loop E s (n + 1) else Some (Inr r))))"

declare randomA_loop.simps [code]

definition randomA :: "platform \<Rightarrow> session \<Rightarrow> (error + int) option" where
  "randomA E s = randomA_loop E s 0"

text \<open>
  \<open>step1\<close> and \<open>step2\<close> return the outcome of the call with the session as the call
  leaves it: \<open>Inr\<close> a returned \<open>ValResult\<close>, \<open>Inl\<close> a thrown exception (a rejected
  promise). \<open>step1\<close> is \<open>None\<close> when the call never returns.
\<close>

definition step1 ::
  "platform \<Rightarrow> session \<Rightarrow> string \<Rightarrow> string \<Rightarrow> string \<Rightarrow> string
     \<Rightarrow> ((error + DataForSignIn ValResult) \<times> session) option" where
  "step1 E s0 identity password saltB64 serverBB64 =
     (let s = s0\<lparr>this_I := identity\<rparr>;
          s = s\<lparr>this_P := password\<rparr>
      in case randomA E s of
           None \<Rightarrow> None
         | Some (Inl e) \<Rightarrow> Some (Inl e, s)
         | Some (Inr a) \<Rightarrow>
      (case modPow (this_g s) a (this_N s) of
           None \<Rightarrow> None
         | Some (Inl e) \<Rightarrow> Some (Inl e, s)
         | Some (Inr ANum) \<Rightarrow>
      (case bigintOfBase64 serverBB64 of
           Inl e \<Rightarrow> Some (Inl e, s)
         | Inr B \<Rightarrow>
      (let s = s\<lparr>this_B := B\<rparr>
       in case BI_remainder_checked (this_B s) (this_N s) of
           Inl e \<Rightarrow> Some (Inl e, s)
         | Inr rem \<Rightarrow>
      if rem = ZERO then Some (Inr (Fail ''Bad server public value B = 0''), s)
      else
      (case generateX E s (hexOfBase64 saltB64) (this_I s) (this_P s) of
           Inl e \<Rightarrow> Some (Inl e, s)
         | Inr x \<Rightarrow>
      (let s = s\<lparr>this_AHex := nonprefixedHexOfPositiveBI ANum\<rparr>
       in case computeU E (this_AHex s) (hexOfBase64 serverBB64) of
           Inl e \<Rightarrow> Some (Inl e, s)
         | Inr None \<Rightarrow> Some (Inr (Fail ''Bad client value u''), s)
         | Inr (Some u) \<Rightarrow>
      (case modPow (this_g s) x (this_N s) of
           None \<Rightarrow> None
         | Some (Inl e) \<Rightarrow> Some (Inl e, s)
         | Some (Inr v) \<Rightarrow>
      (let s = s\<lparr>this_verifier := v\<rparr>
       in case computeSessionKey s x u a of
           None \<Rightarrow> None
         | Some (Inl e) \<Rightarrow> Some (Inl e, s)
         | Some (Inr S) \<Rightarrow>
      (let s = s\<lparr>this_S := S\<rparr>;
           sStr = nonprefixedHexOfPositiveBI (this_S s);
           s = s\<lparr>this_K := hexOfBuff (hash E sStr)\<rparr>;
           M1Buff = hash E (this_AHex s @ nonprefixedHexOfPositiveBI (this_B s) @ sStr);
           s = s\<lparr>this_M1Hex := hexOfBuff M1Buff\<rparr>;
           AB64 = base64OfHex (this_AHex s);
           M1B64 = base64OfHex (this_M1Hex s)
       in Some (Inr (Ok \<lparr>AB64 = AB64, M1B64 = M1B64\<rparr>), s))))))))))"

definition step2 :: "platform \<Rightarrow> session \<Rightarrow> string \<Rightarrow> (error + int ValResult) \<times> session" where
  "step2 E s serverM2B64 =
     (let SHex = nonprefixedHexOfPositiveBI (this_S s);
          M2Buff = hash E (this_AHex s @ this_M1Hex s @ SHex);
          clientM2Hex = hexOfBuff M2Buff;
          serverM2Hex = hexOfBase64 serverM2B64
      in if clientM2Hex \<noteq> serverM2Hex then (Inr (Fail ''Bad server credentials (M2)''), s)
         else (Inr (Ok (this_S s)), s))"

section \<open>Notions used in the statements and proofs\<close>

text \<open>
  The canonical form of a hexadecimal string in the words of the specification: strip the
  leading zero digits; keep the rest if its digit count is even, put one zero digit back
  if it is odd.
\<close>

definition canonical_hex_spec :: "string \<Rightarrow> string" where
  "canonical_hex_spec inp =
     (let stripped = dropWhile (\<lambda>c. c = CHR ''0'') inp
      in if even (length stripped) then stripped else CHR ''0'' # stripped)"

text \<open>
  The four base64 digits of a group of three bytes, and the digits of an incomplete last
  group, as \<open>base64OfArray\<close> computes them.
\<close>

definition sextet1 :: "byte \<Rightarrow> nat" where
  "sextet1 a = drop_bit 2 (unat a)"

definition sextet2 :: "byte \<Rightarrow> byte \<Rightarrow> nat" where
  "sextet2 a b = push_bit 4 (unat a AND 3) + drop_bit 4 (unat b)"

definition sextet2_last :: "byte \<Rightarrow> nat" where
  "sextet2_last a = push_bit 4 (unat a AND 3)"

definition sextet3 :: "byte \<Rightarrow> byte \<Rightarrow> nat" where
  "sextet3 b c = push_bit 2 (unat b AND 15) + drop_bit 6 (unat c)"

definition sextet3_last :: "byte \<Rightarrow> nat" where
  "sextet3_last b = push_bit 2 (unat b AND 15)"

definition sextet4 :: "byte \<Rightarrow> nat" where
  "sextet4 c = unat c AND 63"

text \<open>The four characters that the loop of \<open>base64OfArray\<close> appends for group \<open>i\<close>.\<close>

definition quadAt :: "byte list \<Rightarrow> nat \<Rightarrow> string" where
  "quadAt inp i =
     [BASE64 ! sextet1 (inp ! (i * 3)),
      BASE64 ! sextet2 (inp ! (i * 3)) (inp ! (i * 3 + 1)),
      BASE64 ! sextet3 (inp ! (i * 3 + 1)) (inp ! (i * 3 + 2)),
      BASE64 ! sextet4 (inp ! (i * 3 + 2))]"

text \<open>The characters that \<open>base64OfArray\<close> appends after the loop.\<close>

definition tailOf :: "byte list \<Rightarrow> string" where
  "tailOf inp =
     (let m = length inp div 3
      in if length inp mod 3 = 1 then
           [BASE64 ! sextet1 (inp ! (m * 3)), BASE64 ! sextet2_last (inp ! (m * 3)),
            CHR ''='', CHR ''='']
         else if length inp mod 3 = 2 then
           [BASE64 ! sextet1 (inp ! (m * 3)),
            BASE64 ! sextet2 (inp ! (m * 3)) (inp ! (m * 3 + 1)),
            BASE64 ! sextet3_last (inp ! (m * 3 + 1)), CHR ''='']
         else [])"

text \<open>The integer that a byte array spells, most significant byte first.\<close>

definition bytes_value :: "byte list \<Rightarrow> int" where
  "bytes_value bs = foldl (\<lambda>acc b. acc * 256 + uint b) 0 bs"

text \<open>The two hexadecimal digits that \<open>prefixedHexOfArray\<close> writes for a byte.\<close>

definition hex_pair :: "byte \<Rightarrow> string" where
  "hex_pair b = [HEX_DIGITS ! drop_bit 4 (unat b), HEX_DIGITS ! (unat b AND 15)]"

text \<open>
  Concrete inputs for the closed theorems. \<open>sha256_empty\<close> is the SHA-256 digest of the
  empty string (\<open>e3b0c442\<dots>7852b855\<close>), byte by byte. The first platform gives it
  for the empty string and the digest \<open>5d5d\<dots>5d\<close> for every other string; the second
  gives every string the digest \<open>005d\<dots>5d\<close>, whose first byte is zero; the third
  gives every string the digest \<open>5c5c\<dots>5c\<close>, which is 0 modulo 23. All three fill
  every random array with the byte \<open>3b\<close>. \<open>fresh_session\<close> is the session that the
  constructor builds for \<open>N = 23\<close>, \<open>g = 5\<close>, \<open>k = 3\<close>,
  \<open>session_after_step1\<close> the session that a successful \<open>step1\<close> leaves on the second
  platform, and \<open>session_after_failed_step1\<close> the session that \<open>step1\<close> leaves on the
  first platform when it answers \<open>Bad server public value B = 0\<close>.
\<close>

definition sha256_empty :: "byte list" where
  "sha256_empty =
     [227, 176, 196, 66, 152, 252, 28, 20, 154, 251, 244, 200, 153, 111, 185, 36,
      39, 174, 65, 228, 100, 155, 147, 76, 164, 149, 153, 27, 120, 82, 184, 85]"

definition demo_platform :: platform where
  "demo_platform =
     \<lparr>digest_byte = (\<lambda>x p. if x = [] then sha256_empty ! p else 0x5d),
      random_byte = (\<lambda>n p. 0x3b),
      getTime = (\<lambda>n. 1700000000000)\<rparr>"

definition demo_platform_zero :: platform where
  "demo_platform_zero =
     \<lparr>digest_byte = (\<lambda>x p. if p = 0 then 0 else 0x5d),
      random_byte = (\<lambda>n p. 0x3b),
      getTime = (\<lambda>n. 1700000000000)\<rparr>"

definition demo_platform_x0 :: platform where
  "demo_platform_x0 =
     \<lparr>digest_byte = (\<lambda>x p. 0x5c),
      random_byte = (\<lambda>n p. 0x3b),
      getTime = (\<lambda>n. 1700000000000)\<rparr>"

definition fresh_session :: session where
  "fresh_session =
     \<lparr>this_verifier = 0, this_I = [], this_S = 0, this_B = 0, this_P = [], this_K = [],
      this_AHex = [], this_M1Hex = [], this_salt = [], this_k = 3, this_g = 5, this_N = 23\<rparr>"

definition session_after_step1 :: session where
  "session_after_step1 =
     \<lparr>this_verifier = 12, this_I = ''alice'', this_S = 8, this_B = 7, this_P = ''pw'',
      this_K = ''005d5d5d5d5d5d5d5d5d5d5d5d5d5d5d5d5d5d5d5d5d5d5d5d5d5d5d5d5d5d5d'',
      this_AHex = ''0d'',
      this_M1Hex = ''005d5d5d5d5d5d5d5d5d5d5d5d5d5d5d5d5d5d5d5d5d5d5d5d5d5d5d5d5d5d5d'',
      this_salt = [], this_k = 3, this_g = 5, this_N = 23\<rparr>"


section \<open>Lemmas about the arithmetic kernel\<close>

subsection \<open>Truncating division on the operands the kernel meets\<close>

lemma BI_remainder_nonneg: "0 \<le> a \<Longrightarrow> 0 < b \<Longrightarrow> BI_remainder a b = a mod b"
  by (simp add: BI_remainder_def sgn_if)

lemma BI_divide_nonneg: "0 \<le> a \<Longrightarrow> 0 < b \<Longrightarrow> BI_divide a b = a div b"
  by (simp add: BI_divide_def sgn_if)

lemma eGcd_loop_inv:
  "0 \<le> a \<Longrightarrow> 0 < b \<Longrightarrow> A * u + B * v = a \<Longrightarrow> A * x + B * y = b \<Longrightarrow>
   gcd a b = d \<Longrightarrow>
   (let r = eGcd_loop a b x y u v in A * Egcd_x r + B * Egcd_y r = Egcd_g r \<and> Egcd_g r = d)"
proof (induction a b x y u v rule: eGcd_loop.induct)
  case (1 a b x y u v)
  show ?case
  proof (cases "a = 0")
    case True
    with "1.prems" show ?thesis
      by (subst eGcd_loop.simps) (simp add: ZERO_def)
  next
    case False
    with "1.prems" have apos: "0 < a" by simp
    have r: "BI_remainder b a = b mod a" and q: "BI_divide b a = b div a"
      using apos "1.prems" by (simp_all add: BI_remainder_nonneg BI_divide_nonneg)
    have IH: "(let r = eGcd_loop (b mod a) a u v (x - u * (b div a)) (y - v * (b div a))
               in A * Egcd_x r + B * Egcd_y r = Egcd_g r \<and> Egcd_g r = d)"
    proof (rule "1.IH" [of "BI_divide b a" "BI_remainder b a" "x - u * BI_divide b a" "y - v * BI_divide b a", unfolded r q])
      show "a \<noteq> ZERO" using False by (simp add: ZERO_def)
      show "0 \<le> b mod a" using apos by simp
      show "0 < a" by fact
      show "A * u + B * v = a" by fact
      have "A * (x - u * (b div a)) + B * (y - v * (b div a)) = b - a * (b div a)"
        unfolding "1.prems"(3,4)[symmetric] by (simp add: algebra_simps)
      also have "\<dots> = b mod a" by (simp add: minus_mult_div_eq_mod)
      finally show "A * (x - u * (b div a)) + B * (y - v * (b div a)) = b mod a" .
      show "gcd (b mod a) a = d" using "1.prems"(5) by (metis gcd_red_int gcd.commute)
    qed simp_all
    show ?thesis
      using IH False by (subst eGcd_loop.simps) (simp add: ZERO_def r q Let_def)
  qed
qed


lemma eGcd_correct:
  assumes "0 < a" "0 < b"
  shows "\<exists>r. eGcd a b = Inr r \<and> a * Egcd_x r + b * Egcd_y r = Egcd_g r \<and> Egcd_g r = gcd a b"
  using eGcd_loop_inv [where a = a and b = b and A = a and B = b and u = 1 and v = 0
      and x = 0 and y = 1 and d = "gcd a b"] assms
  by (simp add: eGcd_def ZERO_def ONE_def Let_def)

lemma toZn_pos: "0 < N \<Longrightarrow> toZn x N = Inr (x mod N)"
proof (cases "0 \<le> x")
  case True
  assume "0 < N"
  then have "\<not> x mod N < 0" by (simp add: not_less)
  with True \<open>0 < N\<close> show ?thesis
    by (simp add: toZn_def ZERO_def BI_remainder_nonneg Let_def)
next
  case False
  assume N: "0 < N"
  define k where "k = (- x) mod N"
  from False have neg: "x < 0" by simp
  have m: "x mod N = (if k = 0 then 0 else N - k)"
    unfolding k_def using zmod_zminus1_eq_if [of "- x" N] by simp
  have r: "BI_remainder x N = - k"
    unfolding k_def using neg N by (simp add: BI_remainder_def sgn_if)
  have k: "0 \<le> k" unfolding k_def using N by simp
  have "toZn x N = Inr (if - k < 0 then - k + N else - k)"
    using N by (simp add: toZn_def ZERO_def Let_def r)
  also have "(if - k < 0 then - k + N else - k) = x mod N"
    using k by (simp only: m) auto
  finally show ?thesis .
qed

lemma toZn_nonpos: "N \<le> 0 \<Longrightarrow> toZn x N = Inl (RangeError ''n must be > 0'')"
  by (simp add: toZn_def ZERO_def)

lemma modPow_loop_correct:
  "0 \<le> e \<Longrightarrow> 0 \<le> r \<Longrightarrow> r < N \<Longrightarrow> 0 \<le> b \<Longrightarrow>
   modPow_loop r b e N = (r * b ^ nat e) mod N"
proof (induction r b e N rule: modPow_loop.induct)
  case (1 r b e N)
  have N: "0 < N" using "1.prems" by simp
  show ?case
  proof (cases "0 < e")
    case False
    with "1.prems" have "e = 0" by simp
    with "1.prems" show ?thesis
      by (subst modPow_loop.simps) (simp add: ZERO_def)
  next
    case True
    define r' where "r' = (if e mod 2 = 1 then (r * b) mod N else r)"
    have rem2: "BI_remainder e TWO = e mod 2" and div2: "BI_divide e TWO = e div 2"
      using True by (simp_all add: TWO_def BI_remainder_nonneg BI_divide_nonneg)
    have remrb: "BI_remainder (r * b) N = (r * b) mod N"
      using "1.prems" N by (simp add: BI_remainder_nonneg)
    have remsq: "BI_remainder (b ^ 2) N = (b ^ 2) mod N"
      using N by (simp add: BI_remainder_nonneg)
    have r'0: "0 \<le> r'" and r'N: "r' < N"
      using "1.prems" N by (simp_all add: r'_def)
    have IH: "modPow_loop r' ((b ^ 2) mod N) (e div 2) N
                = (r' * ((b ^ 2) mod N) ^ nat (e div 2)) mod N"
      using "1.IH" [unfolded rem2 div2 remrb remsq ONE_def, folded r'_def] True r'0 r'N N
      by (simp add: ZERO_def)
    have unfold: "modPow_loop r b e N = modPow_loop r' ((b ^ 2) mod N) (e div 2) N"
      using True
      by (subst modPow_loop.simps) (simp add: ZERO_def ONE_def rem2 div2 remrb remsq r'_def)
    have pw: "(((b ^ 2) mod N) ^ nat (e div 2)) mod N = (b ^ (2 * nat (e div 2))) mod N"
      by (simp add: power_mod power_mult)
    have "(r' * ((b ^ 2) mod N) ^ nat (e div 2)) mod N
            = (r' * (b ^ (2 * nat (e div 2)))) mod N"
      by (metis pw mod_mult_right_eq)
    also have "\<dots> = (r * b ^ nat e) mod N"
    proof (cases "e mod 2 = 1")
      case odd: True
      define k where "k = e div 2"
      have "e = 2 * k + 1" "0 \<le> k" using True odd unfolding k_def by presburger+
      then have "nat e = Suc (2 * nat k)" by linarith
      then have "nat e = Suc (2 * nat (e div 2))" by (simp add: k_def)
      then show ?thesis
        by (simp add: r'_def odd mod_mult_left_eq mult.assoc)
    next
      case even: False
      define k where "k = e div 2"
      have "e = 2 * k" "0 \<le> k" using True even unfolding k_def by presburger+
      then have "nat e = 2 * nat k" by linarith
      then have "nat e = 2 * nat (e div 2)" by (simp add: k_def)
      then show ?thesis
        by (simp add: r'_def even)
    qed
    finally show ?thesis using unfold IH by simp
  qed
qed

lemma modPow_nonpos_modulus: "N \<le> 1 \<Longrightarrow> modPow x y N = Some (Inl (RangeError ''n must be > 1''))"
  by (subst modPow.simps) (simp add: ONE_def)

lemma modPow_pos:
  assumes "1 < N" "0 < y"
  shows "modPow x y N = Some (Inr (x ^ nat y mod N))"
proof -
  have "modPow_loop 1 (x mod N) y N = (1 * (x mod N) ^ nat y) mod N"
    using assms by (intro modPow_loop_correct) simp_all
  then show ?thesis
    using assms by (subst modPow.simps) (simp add: ONE_def ZERO_def toZn_pos power_mod)
qed

lemmas modPow_raw_induct =
  modPow.raw_induct [where xa = "((x, y), M)" and ya = r, simplified] for x y M r

lemma modPow_Some_exponent:
  assumes "modPow x y M = Some r"
  shows "\<not> (y = 0 \<and> 1 < M)"
proof (rule modPow_raw_induct [where P = "\<lambda>x y M r. \<not> (y = 0 \<and> 1 < M)", OF _ assms], goal_cases)
  case (1 modPow' x y M r)
  show ?case
  proof
    assume yM: "y = 0 \<and> 1 < M"
    with 1(2) obtain r' where "modPow' (x mod M) 0 M = Some r'"
      by (auto simp: ONE_def ZERO_def abs_BI_def toZn_pos Option.bind_eq_Some_conv)
    from 1(1) [OF this] yM show False by simp
  qed
qed

lemma modPow_zero_None: "1 < N \<Longrightarrow> modPow x 0 N = None"
  using modPow_Some_exponent [of x 0 N] by (cases "modPow x 0 N") auto

lemma modPow_neg:
  assumes "1 < N" "y < 0"
  shows "modPow x y N = Some (modInv (x ^ nat (- y) mod N) N)"
proof -
  have "modPow (x mod N) (- y) N = Some (Inr ((x mod N) ^ nat (- y) mod N))"
    using assms by (intro modPow_pos) simp_all
  then show ?thesis
    using assms
    by (subst modPow.simps) (simp add: ONE_def ZERO_def toZn_pos abs_BI_def power_mod)
qed



lemma modInv_nonpos: "n \<le> 0 \<Longrightarrow> modInv a n = Inl (RangeError ''n must be > 0'')"
  by (simp add: modInv_def toZn_nonpos)

lemma modInv_one: "modInv a 1 = Inl (RangeError ''a and b MUST be > 0'')"
  by (simp add: modInv_def toZn_pos eGcd_def ZERO_def)

lemma modInv_no_inverse:
  assumes "1 < n" "gcd a n \<noteq> 1"
  shows "isl (modInv a n)"
proof (cases "a mod n = 0")
  case True
  with assms show ?thesis
    by (simp add: modInv_def toZn_pos eGcd_def ZERO_def)
next
  case False
  moreover have "0 \<le> a mod n" using assms by simp
  ultimately have "0 < a mod n" by linarith
  moreover have "0 < n" using assms by simp
  ultimately have pos: "0 < a mod n" "0 < n" by blast+
  from eGcd_correct [OF pos] obtain r where
    r: "eGcd (a mod n) n = Inr r" "Egcd_g r = gcd (a mod n) n" by blast
  have "gcd (a mod n) n = gcd a n"
    by (metis gcd_red_int gcd.commute)
  with r assms show ?thesis
    by (simp add: modInv_def toZn_pos ONE_def)
qed

lemma modInv_inverse:
  assumes "1 < n" "gcd a n = 1"
  shows "\<exists>r. modInv a n = Inr r \<and> 0 \<le> r \<and> r < n \<and> (r * a) mod n = 1"
proof -
  have g: "gcd (a mod n) n = gcd a n"
    by (metis gcd_red_int gcd.commute)
  have "a mod n \<noteq> 0"
  proof
    assume "a mod n = 0"
    with g assms show False by simp
  qed
  moreover have "0 \<le> a mod n" using assms by simp
  ultimately have "0 < a mod n" by linarith
  moreover have "0 < n" using assms by simp
  ultimately have pos: "0 < a mod n" "0 < n" by blast+
  from eGcd_correct [OF pos] obtain r where
    r: "eGcd (a mod n) n = Inr r" "Egcd_g r = gcd (a mod n) n"
       "(a mod n) * Egcd_x r + n * Egcd_y r = Egcd_g r" by blast
  have res: "modInv a n = Inr (Egcd_x r mod n)"
    using r assms g by (simp add: modInv_def toZn_pos ONE_def)
  have "(Egcd_x r mod n * a) mod n = ((a mod n) * Egcd_x r + n * Egcd_y r) mod n"
    by (simp add: mod_mult_eq mult.commute mod_mult_right_eq)
  also have "\<dots> = 1"
    using r g assms by simp
  finally show ?thesis
    using res assms by simp
qed

lemma modInv_Inr:
  assumes "1 < n" "modInv a n = Inr r"
  shows "0 \<le> r \<and> r < n \<and> (r * a) mod n = 1"
proof (cases "gcd a n = 1")
  case True
  from modInv_inverse [OF assms(1) True] assms(2) show ?thesis by auto
next
  case False
  from modInv_no_inverse [OF assms(1) False] assms(2) show ?thesis by simp
qed

lemma modInv_fails_iff: "isl (modInv a n) \<longleftrightarrow> gcd a n \<noteq> 1 \<or> n \<le> 1"
proof (cases "1 < n")
  case True
  show ?thesis
  proof (cases "gcd a n = 1")
    case g: True
    from modInv_inverse [OF True g] True g show ?thesis by auto
  next
    case g: False
    from modInv_no_inverse [OF True g] g show ?thesis by simp
  qed
next
  case False
  then consider "n = 1" | "n \<le> 0" by linarith
  then show ?thesis
    by cases (simp_all add: modInv_one modInv_nonpos)
qed

lemma inverse_unique:
  fixes r q p N :: int
  assumes "0 \<le> r" "r < N" "0 \<le> q" "q < N" "(q * p) mod N = 1" "(p * r) mod N = 1"
  shows "r = q"
proof -
  have "q mod N = (q * ((p * r) mod N)) mod N"
    using assms by simp
  also have "\<dots> = (((q * p) mod N) * r) mod N"
    by (simp add: mod_mult_right_eq mod_mult_left_eq mult.assoc)
  also have "\<dots> = r mod N"
    using assms by simp
  finally show ?thesis using assms by simp
qed

lemma modPow_throws_iff:
  assumes "1 < N" "y \<noteq> 0"
  shows "throws (modPow x y N) \<longleftrightarrow> y < 0 \<and> gcd x N \<noteq> 1"
proof (cases "0 < y")
  case True
  with assms show ?thesis by (simp add: modPow_pos throws_def)
next
  case False
  with assms have neg: "y < 0" by simp
  have "gcd (x ^ nat (- y) mod N) N = gcd (x ^ nat (- y)) N"
    by (metis gcd_red_int gcd.commute)
  moreover have "coprime (x ^ nat (- y)) N \<longleftrightarrow> coprime x N"
    using neg by (simp add: coprime_power_left_iff)
  ultimately have "gcd (x ^ nat (- y) mod N) N \<noteq> 1 \<longleftrightarrow> gcd x N \<noteq> 1"
    by (simp add: coprime_iff_gcd_eq_1)
  then show ?thesis
    using assms neg modInv_fails_iff [of "x ^ nat (- y) mod N" N]
    by (cases "modInv (x ^ nat (- y) mod N) N") (simp_all add: modPow_neg throws_def)
qed

lemma modPow_neg_is_inverse:
  assumes "modPow x (- y) N = Some (Inr r)" "modPow x y N = Some (Inr p)" "modInv p N = Inr q"
  shows "r = q"
proof -
  have N: "1 < N"
    using assms(2) by (cases "1 < N") (simp_all add: modPow_nonpos_modulus)
  have y0: "y \<noteq> 0"
    using assms(2) modPow_zero_None [OF N, of x] by auto
  show ?thesis
  proof (cases "0 < y")
    case True
    with N assms show ?thesis by (simp add: modPow_pos modPow_neg)
  next
    case False
    with y0 have neg: "y < 0" by simp
    from assms(1) N neg have r: "r = x ^ nat (- y) mod N" by (simp add: modPow_pos)
    from assms(2) N neg have p: "modInv r N = Inr p" by (simp add: modPow_neg r)
    from modInv_Inr [OF N p] have 1: "(p * r) mod N = 1" by simp
    from modInv_Inr [OF N assms(3)] have 2: "0 \<le> q" "q < N" "(q * p) mod N = 1" by simp_all
    have 3: "0 \<le> r" "r < N" using N by (simp_all add: r)
    from inverse_unique [OF 3 2 1] show ?thesis .
  qed
qed

lemma modInv_error_message:
  assumes "1 < n"
  shows "modInv a n \<noteq> Inl (RangeError ''n must be > 1'')"
proof
  assume e: "modInv a n = Inl (RangeError ''n must be > 1'')"
  have len: "length (BI_toString 10 a @ '' does not have inverse modulo '' @ BI_toString 10 n)
               \<noteq> length ''n must be > 1''"
    by simp
  then have ne: "BI_toString 10 a @ '' does not have inverse modulo '' @ BI_toString 10 n
               \<noteq> ''n must be > 1''"
    by metis
  from e assms ne show False
    by (auto simp: modInv_def toZn_pos eGcd_def ZERO_def split: sum.splits if_splits)
qed

lemma modPow_modulus_error_iff:
  "modPow x y N = Some (Inl (RangeError ''n must be > 1'')) \<longleftrightarrow> N \<le> 1"
proof (cases "N \<le> 1")
  case True
  then show ?thesis by (simp add: modPow_nonpos_modulus)
next
  case False
  then have N: "1 < N" by simp
  consider "0 < y" | "y = 0" | "y < 0" by linarith
  then have "modPow x y N \<noteq> Some (Inl (RangeError ''n must be > 1''))"
  proof cases
    case 1
    with N show ?thesis by (simp add: modPow_pos)
  next
    case 2
    with N show ?thesis by (simp add: modPow_zero_None)
  next
    case 3
    with N show ?thesis by (simp add: modPow_neg modInv_error_message)
  qed
  with False show ?thesis by simp
qed

subsection \<open>Negative exponents: the result and the error of \<open>modInv\<close>\<close>

lemma modInv_no_inverse_exact:
  assumes "1 < n" "gcd a n \<noteq> 1"
  shows "modInv a n
           = Inl (RangeError (if a mod n = 0 then ''a and b MUST be > 0''
                              else BI_toString 10 a @ '' does not have inverse modulo ''
                                   @ BI_toString 10 n))"
proof (cases "a mod n = 0")
  case True
  with assms show ?thesis
    by (simp add: modInv_def toZn_pos eGcd_def ZERO_def)
next
  case False
  moreover have "0 \<le> a mod n" using assms by simp
  ultimately have "0 < a mod n" by linarith
  moreover have "0 < n" using assms by simp
  ultimately have pos: "0 < a mod n" "0 < n" by blast+
  from eGcd_correct [OF pos] obtain r where
    r: "eGcd (a mod n) n = Inr r" "Egcd_g r = gcd (a mod n) n" by blast
  have "gcd (a mod n) n = gcd a n"
    by (metis gcd_red_int gcd.commute)
  with r assms False show ?thesis
    by (simp add: modInv_def toZn_pos ONE_def)
qed

lemma gcd_power_residue:
  fixes x N y :: int
  assumes "y < 0"
  shows "gcd (x ^ nat (- y) mod N) N = 1 \<longleftrightarrow> gcd x N = 1"
proof -
  have "gcd (x ^ nat (- y) mod N) N = gcd (x ^ nat (- y)) N"
    by (metis gcd_red_int gcd.commute)
  moreover have "coprime (x ^ nat (- y)) N \<longleftrightarrow> coprime x N"
    using assms by (simp add: coprime_power_left_iff)
  ultimately show ?thesis
    by (simp add: coprime_iff_gcd_eq_1)
qed

lemma modPow_neg_coprime:
  assumes "1 < N" "y < 0" "gcd x N = 1"
  shows "\<exists>r. modPow x y N = Some (Inr r) \<and> 0 \<le> r \<and> r < N \<and> (r * x ^ nat (- y)) mod N = 1"
proof -
  have g: "gcd (x ^ nat (- y) mod N) N = 1"
    using gcd_power_residue [OF assms(2), of x N] assms(3) by simp
  from modInv_inverse [OF assms(1) g] obtain r where
    r: "modInv (x ^ nat (- y) mod N) N = Inr r" "0 \<le> r" "r < N"
       "(r * (x ^ nat (- y) mod N)) mod N = 1"
    by blast
  have "(r * x ^ nat (- y)) mod N = (r * (x ^ nat (- y) mod N)) mod N"
    by (simp add: mod_mult_right_eq)
  with r(4) have "(r * x ^ nat (- y)) mod N = 1" by simp
  moreover have "modPow x y N = Some (Inr r)"
    using modPow_neg [OF assms(1,2), of x] r(1) by simp
  ultimately show ?thesis using r(2,3) by blast
qed

lemma modPow_neg_not_coprime:
  assumes "1 < N" "y < 0" "gcd x N \<noteq> 1"
  shows "modPow x y N
           = Some (Inl (RangeError
               (if x ^ nat (- y) mod N = 0 then ''a and b MUST be > 0''
                else BI_toString 10 (x ^ nat (- y) mod N) @ '' does not have inverse modulo ''
                     @ BI_toString 10 N)))"
proof -
  have g: "gcd (x ^ nat (- y) mod N) N \<noteq> 1"
    using gcd_power_residue [OF assms(2), of x N] assms(3) by simp
  have "modPow x y N = Some (modInv (x ^ nat (- y) mod N) N)"
    using modPow_neg [OF assms(1,2), of x] .
  also have "modInv (x ^ nat (- y) mod N) N
           = Inl (RangeError
               (if x ^ nat (- y) mod N = 0 then ''a and b MUST be > 0''
                else BI_toString 10 (x ^ nat (- y) mod N) @ '' does not have inverse modulo ''
                     @ BI_toString 10 N))"
    using modInv_no_inverse_exact [OF assms(1) g] by simp
  finally show ?thesis .
qed

lemma unit_residue_coprime:
  fixes p r N :: int
  assumes "(p * r) mod N = 1"
  shows "gcd p N = 1"
proof -
  have "gcd p N dvd p * r" by simp
  moreover have "gcd p N dvd N" by simp
  ultimately have "gcd p N dvd (p * r) mod N" by (rule dvd_mod)
  with assms have "gcd p N dvd 1" by simp
  then show ?thesis by simp
qed

lemma modPow_inverse_of_neg:
  assumes "1 < N" "y < 0" "gcd x N = 1"
  shows "\<exists>p. modPow x y N = Some (Inr p)
             \<and> modPow x (- y) N = Some (Inr (x ^ nat (- y) mod N))
             \<and> modInv p N = Inr (x ^ nat (- y) mod N)"
proof -
  let ?r = "x ^ nat (- y) mod N"
  from modPow_neg_coprime [OF assms] obtain p where
    p: "modPow x y N = Some (Inr p)" "(p * x ^ nat (- y)) mod N = 1"
    by blast
  have 1: "modPow x (- y) N = Some (Inr ?r)"
    using modPow_pos [of N "- y" x] assms by simp
  have "(p * ?r) mod N = (p * x ^ nat (- y)) mod N"
    by (simp add: mod_mult_right_eq)
  with p(2) have pr: "(p * ?r) mod N = 1" by simp
  from unit_residue_coprime [OF pr] have c: "gcd p N = 1" .
  from modInv_inverse [OF assms(1) c] obtain q where
    q: "modInv p N = Inr q" "0 \<le> q" "q < N" "(q * p) mod N = 1"
    by blast
  have b: "0 \<le> ?r" "?r < N" using assms(1) by simp_all
  from inverse_unique [OF b q(2,3,4) pr] have "?r = q" .
  with q(1) have "modInv p N = Inr ?r" by simp
  with p(1) 1 show ?thesis by blast
qed

section \<open>The codec\<close>

subsection \<open>Canonical hexadecimal text\<close>

lemma countZeroes_loop_eq:
  "c \<le> length inp \<Longrightarrow>
   countZeroes_loop inp c = c + length (takeWhile (\<lambda>ch. ch = CHR ''0'') (drop c inp))"
proof (induction inp c rule: countZeroes_loop.induct)
  case (1 inp c)
  show ?case
  proof (cases "c < length inp \<and> inp ! c = CHR ''0''")
    case True
    then have d: "drop c inp = CHR ''0'' # drop (Suc c) inp"
      by (metis Cons_nth_drop_Suc)
    from True "1.IH" have "countZeroes_loop inp (c + 1)
        = c + 1 + length (takeWhile (\<lambda>ch. ch = CHR ''0'') (drop (c + 1) inp))"
      by simp
    with True d show ?thesis
      by (subst countZeroes_loop.simps) simp
  next
    case False
    have "takeWhile (\<lambda>ch. ch = CHR ''0'') (drop c inp) = []"
    proof (cases "c < length inp")
      case True
      with False have "inp ! c \<noteq> CHR ''0''" by simp
      moreover from True have "drop c inp = inp ! c # drop (Suc c) inp"
        by (simp add: Cons_nth_drop_Suc)
      ultimately show ?thesis by simp
    next
      case False
      then show ?thesis by simp
    qed
    with False show ?thesis
      by (subst countZeroes_loop.simps) auto
  qed
qed

lemma countZeroes_loop_0:
  "countZeroes_loop inp 0 = length (takeWhile (\<lambda>ch. ch = CHR ''0'') inp)"
  using countZeroes_loop_eq [of 0 inp] by simp

lemma drop_length_takeWhile: "drop (length (takeWhile P xs)) xs = dropWhile P xs"
  by (induction xs) auto

lemma drop_pred_length_takeWhile:
  assumes "0 < length (takeWhile P xs)"
  shows "drop (length (takeWhile P xs) - 1) xs = last (takeWhile P xs) # dropWhile P xs"
  using assms
proof (induction xs)
  case Nil
  then show ?case by simp
next
  case (Cons x xs)
  show ?case
  proof (cases "P x")
    case False
    with Cons.prems show ?thesis by simp
  next
    case True
    show ?thesis
    proof (cases "takeWhile P xs = []")
      case e: True
      then have "dropWhile P xs = xs"
        by (metis takeWhile_dropWhile_id append_Nil)
      with True e show ?thesis by simp
    next
      case ne: False
      then obtain n where n: "length (takeWhile P xs) = Suc n"
        by (cases "takeWhile P xs") auto
      then have "0 < length (takeWhile P xs)" by simp
      from Cons.IH [OF this] True ne n show ?thesis
        by simp
    qed
  qed
qed

lemma last_takeWhile: "takeWhile P xs \<noteq> [] \<Longrightarrow> P (last (takeWhile P xs))"
  by (metis last_in_set set_takeWhileD)

lemma trimHexZeroes_eq_spec: "trimHexZeroes inp = canonical_hex_spec inp"
proof -
  let ?P = "\<lambda>c. c = CHR ''0''"
  let ?z = "length (takeWhile ?P inp)"
  have len: "length (dropWhile ?P inp) = length inp - ?z"
    by (metis drop_length_takeWhile length_drop)
  show ?thesis
  proof (cases "0 < ?z")
    case True
    then have "takeWhile ?P inp \<noteq> []" by simp
    then have "last (takeWhile ?P inp) = CHR ''0''" by (rule last_takeWhile)
    with drop_pred_length_takeWhile [OF True]
    have "drop (?z - 1) inp = CHR ''0'' # dropWhile ?P inp" by simp
    with True len show ?thesis
      by (simp add: trimHexZeroes_def canonical_hex_spec_def countZeroes_loop_0 Let_def
          drop_length_takeWhile even_iff_mod_2_eq_zero)
  next
    case False
    then have "takeWhile ?P inp = []" by simp
    then have "dropWhile ?P inp = inp"
      by (metis takeWhile_dropWhile_id append_Nil)
    with False show ?thesis
      by (simp add: trimHexZeroes_def canonical_hex_spec_def countZeroes_loop_0 Let_def
          even_iff_mod_2_eq_zero)
  qed
qed

lemma canonical_hex_spec_even: "even (length (canonical_hex_spec inp))"
  by (simp add: canonical_hex_spec_def Let_def)

lemma canonical_hex_spec_leading:
  "length (takeWhile (\<lambda>c. c = CHR ''0'') (canonical_hex_spec inp)) \<le> 1"
proof -
  have "takeWhile (\<lambda>c. c = CHR ''0'') (dropWhile (\<lambda>c. c = CHR ''0'') inp) = []"
    by (metis (mono_tags, lifting) hd_dropWhile list.collapse takeWhile.simps(2) takeWhile.simps(1))
  then show ?thesis
    by (simp add: canonical_hex_spec_def Let_def)
qed


subsection \<open>Base64 round trip\<close>

lemma base64OfArray_loop_eq:
  "base64OfArray_loop inp n i acc = acc @ concat (map (quadAt inp) [i..<n])"
proof (induction inp n i acc rule: base64OfArray_loop.induct)
  case (1 inp n i acc)
  show ?case
  proof (cases "i < n")
    case True
    have q: "acc
           @ [BASE64 ! drop_bit 2 (unat (inp ! (i * 3)))]
           @ [BASE64 ! (push_bit 4 (unat (inp ! (i * 3)) AND 3) + drop_bit 4 (unat (inp ! (i * 3 + 1))))]
           @ [BASE64 ! (push_bit 2 (unat (inp ! (i * 3 + 1)) AND 15) + drop_bit 6 (unat (inp ! (i * 3 + 2))))]
           @ [BASE64 ! (unat (inp ! (i * 3 + 2)) AND 63)] = acc @ quadAt inp i"
      by (simp only: quadAt_def sextet1_def sextet2_def sextet3_def sextet4_def append_Cons append_Nil)
    have step: "base64OfArray_loop inp n i acc = base64OfArray_loop inp n (i + 1) (acc @ quadAt inp i)"
      by (subst base64OfArray_loop.simps) (simp only: True if_True q)
    have "[i..<n] = i # [i + 1..<n]" using True by (simp add: upt_conv_Cons)
    then show ?thesis
      using "1.IH" [OF True, unfolded q] step by simp
  next
    case False
    then show ?thesis
      by (subst base64OfArray_loop.simps) simp
  qed
qed

lemma and_3: "(x::nat) AND 3 = x mod 4"
  using take_bit_eq_mask [of 2 x] by (simp add: take_bit_eq_mod mask_eq_exp_minus_1)
lemma and_15: "(x::nat) AND 15 = x mod 16"
  using take_bit_eq_mask [of 4 x] by (simp add: take_bit_eq_mod mask_eq_exp_minus_1)
lemma and_63: "(x::nat) AND 63 = x mod 64"
  using take_bit_eq_mask [of 6 x] by (simp add: take_bit_eq_mod mask_eq_exp_minus_1)
lemma int_and_3: "(x::int) AND 3 = x mod 4"
  using take_bit_eq_mask [of 2 x] by (simp add: take_bit_eq_mod mask_eq_exp_minus_1)
lemma int_and_15: "(x::int) AND 15 = x mod 16"
  using take_bit_eq_mask [of 4 x] by (simp add: take_bit_eq_mod mask_eq_exp_minus_1)

lemma num64_BASE64:
  "n < 64 \<Longrightarrow> num64OfBase64 (Some (of_char (BASE64 ! n))) = Some (int n)"
proof -
  have "\<forall>n \<in> set [0..<64]. num64OfBase64 (Some (of_char (BASE64 ! n))) = Some (int n)"
    by code_simp
  then show "n < 64 \<Longrightarrow> ?thesis" by simp
qed

lemma BASE64_not_pad: "n < 64 \<Longrightarrow> BASE64 ! n \<noteq> CHR ''=''"
proof -
  have "\<forall>n \<in> set [0..<64]. BASE64 ! n \<noteq> CHR ''=''"
    by code_simp
  then show "n < 64 \<Longrightarrow> ?thesis" by simp
qed

lemma unat_byte: "unat (a :: byte) < 256"
proof -
  have "unat a < 2 ^ LENGTH(8)" by (rule unsigned_less)
  then show ?thesis by simp
qed

lemma div_add_small: "b < n \<Longrightarrow> (a * n + b) div n = (a::nat)"
  by simp

lemma mod_add_small: "b < n \<Longrightarrow> (a * n + b) mod n = (b::nat)"
  by simp

lemma byte_div16: "y < 256 \<Longrightarrow> y div 16 < (16::nat)"
  by simp

lemma byte_div64: "z < 256 \<Longrightarrow> z div 64 < (4::nat)"
  by simp

lemma sextet1_less: "sextet1 a < 64"
  using unat_byte [of a] by (simp add: sextet1_def drop_bit_eq_div)

lemma sextet2_less: "sextet2 a b < 64"
proof -
  have "unat a mod 4 < 4" by simp
  then have "(unat a mod 4) * 16 + unat b div 16 < 64"
    using byte_div16 [OF unat_byte [of b]] by linarith
  then show ?thesis by (simp add: sextet2_def drop_bit_eq_div push_bit_eq_mult and_3)
qed

lemma sextet2_last_less: "sextet2_last a < 64"
proof -
  have "unat a mod 4 < 4" by simp
  then have "(unat a mod 4) * 16 < 64" by linarith
  then show ?thesis by (simp add: sextet2_last_def push_bit_eq_mult and_3)
qed

lemma sextet3_less: "sextet3 b c < 64"
proof -
  have "unat b mod 16 < 16" by simp
  then have "(unat b mod 16) * 4 + unat c div 64 < 64"
    using byte_div64 [OF unat_byte [of c]] by linarith
  then show ?thesis by (simp add: sextet3_def drop_bit_eq_div push_bit_eq_mult and_15)
qed

lemma sextet3_last_less: "sextet3_last b < 64"
proof -
  have "unat b mod 16 < 16" by simp
  then have "(unat b mod 16) * 4 < 64" by linarith
  then show ?thesis by (simp add: sextet3_last_def push_bit_eq_mult and_15)
qed

lemma sextet4_less: "sextet4 c < 64"
  by (simp add: sextet4_def and_63)

lemma word_of_int_nat_eq: "int n = i \<Longrightarrow> n = unat (a :: byte) \<Longrightarrow> word_of_int i = a"
  by auto

lemma dec1_nat:
  fixes x y :: nat
  assumes "y < 256"
  shows "push_bit 2 (drop_bit 2 x) + drop_bit 4 (push_bit 4 (x AND 3) + drop_bit 4 y) = x"
proof -
  have "(x div 4) * 4 + ((x mod 4) * 16 + y div 16) div 16 = x"
    using byte_div16 [OF assms] by (simp add: div_add_small)
  then show ?thesis
    by (simp add: drop_bit_eq_div push_bit_eq_mult and_3)
qed

lemma dec1'_nat:
  fixes x :: nat
  shows "push_bit 2 (drop_bit 2 x) + drop_bit 4 (push_bit 4 (x AND 3)) = x"
proof -
  have "(x div 4) * 4 + ((x mod 4) * 16) div 16 = x"
    by simp
  then show ?thesis
    by (simp add: drop_bit_eq_div push_bit_eq_mult and_3)
qed

lemma dec2_nat:
  fixes x y z :: nat
  assumes "y < 256" "z < 256"
  shows "push_bit 4 ((push_bit 4 (x AND 3) + drop_bit 4 y) AND 15)
           + drop_bit 2 (push_bit 2 (y AND 15) + drop_bit 6 z) = y"
proof -
  have "(((x mod 4) * 16 + y div 16) mod 16) * 16 + ((y mod 16) * 4 + z div 64) div 4 = y"
    using byte_div16 [OF assms(1)] byte_div64 [OF assms(2)]
    by (simp add: div_add_small mod_add_small)
  then show ?thesis
    by (simp add: drop_bit_eq_div push_bit_eq_mult and_3 and_15)
qed

lemma dec2'_nat:
  fixes x y :: nat
  assumes "y < 256"
  shows "push_bit 4 ((push_bit 4 (x AND 3) + drop_bit 4 y) AND 15)
           + drop_bit 2 (push_bit 2 (y AND 15)) = y"
proof -
  have "(((x mod 4) * 16 + y div 16) mod 16) * 16 + ((y mod 16) * 4) div 4 = y"
    using byte_div16 [OF assms(1)]
    by (simp add: mod_add_small)
  then show ?thesis
    by (simp add: drop_bit_eq_div push_bit_eq_mult and_3 and_15)
qed

lemma dec3_nat:
  fixes y z :: nat
  assumes "z < 256"
  shows "push_bit 6 ((push_bit 2 (y AND 15) + drop_bit 6 z) AND 3) + (z AND 63) = z"
proof -
  have "(((y mod 16) * 4 + z div 64) mod 4) * 64 + z mod 64 = z"
    using byte_div64 [OF assms]
    by (simp add: mod_add_small)
  then show ?thesis
    by (simp add: drop_bit_eq_div push_bit_eq_mult and_3 and_15 and_63)
qed

lemma ToUint8_int: "ToUint8 (Some (int (unat a))) = a"
  by (simp add: ToUint8_def)

lemma js_shl_int: "js_shl (Some (int n)) k = Some (int (push_bit k n))"
  by (simp add: js_shl_def ToInt32_def push_bit_of_nat)

lemma js_shr_int: "js_shr (Some (int n)) k = Some (int (drop_bit k n))"
  by (simp add: js_shr_def ToInt32_def drop_bit_of_nat)

lemma js_and_int: "js_and (Some (int n)) (int m) = Some (int (n AND m))"
  by (simp add: js_and_def ToInt32_def of_nat_and_eq)

lemma js_add_int: "js_add (Some (int n)) (Some (int m)) = Some (int (n + m))"
  by (simp add: js_add_def)


text \<open>Decoding the digits of a group gives its bytes back.\<close>

lemma decode1:
  "ToUint8 (js_add (js_shl (Some (int (sextet1 a))) 2) (js_shr (Some (int (sextet2 a b))) 4)) = a"
  using dec1_nat [OF unat_byte [of b], of "unat a"]
  by (simp only: js_shl_int js_shr_int js_add_int sextet1_def sextet2_def ToUint8_int)

lemma decode1_last:
  "ToUint8 (js_add (js_shl (Some (int (sextet1 a))) 2) (js_shr (Some (int (sextet2_last a))) 4)) = a"
  using dec1'_nat [of "unat a"]
  by (simp only: js_shl_int js_shr_int js_add_int sextet1_def sextet2_last_def ToUint8_int)

lemma decode2:
  "ToUint8 (js_add (js_shl (js_and (Some (int (sextet2 a b))) 15) 4)
                   (js_shr (Some (int (sextet3 b c))) 2)) = b"
  using dec2_nat [OF unat_byte [of b] unat_byte [of c], of "unat a"] js_and_int [of _ 15]
  by (simp only: js_shl_int js_shr_int js_add_int sextet2_def sextet3_def ToUint8_int of_nat_numeral)

lemma decode2_last:
  "ToUint8 (js_add (js_shl (js_and (Some (int (sextet2 a b))) 15) 4)
                   (js_shr (Some (int (sextet3_last b))) 2)) = b"
  using dec2'_nat [OF unat_byte [of b], of "unat a"] js_and_int [of _ 15]
  by (simp only: js_shl_int js_shr_int js_add_int sextet2_def sextet3_last_def ToUint8_int of_nat_numeral)

lemma decode3:
  "ToUint8 (js_add (js_shl (js_and (Some (int (sextet3 b c))) 3) 6) (Some (int (sextet4 c)))) = c"
  using dec3_nat [OF unat_byte [of c], of "unat b"] js_and_int [of _ 3]
  by (simp only: js_shl_int js_shr_int js_add_int sextet3_def sextet4_def ToUint8_int of_nat_numeral)

lemma length_quadAt: "length (quadAt inp i) = 4"
  by (simp add: quadAt_def)

lemma length_concat_quads: "length (concat (map (quadAt inp) xs)) = 4 * length xs"
  by (induction xs) (simp_all add: length_quadAt)

lemma nth_concat_quads:
  "i < length xs \<Longrightarrow> k < 4 \<Longrightarrow>
   concat (map (quadAt inp) xs) ! (4 * i + k) = quadAt inp (xs ! i) ! k"
proof (induction xs arbitrary: i)
  case Nil
  then show ?case by simp
next
  case (Cons x xs)
  show ?case
  proof (cases i)
    case 0
    with Cons.prems show ?thesis
      by (simp add: nth_append length_quadAt)
  next
    case (Suc j)
    with Cons.prems have "j < length xs" by simp
    from Cons.IH [OF this Cons.prems(2)] Suc show ?thesis
      by (simp add: nth_append length_quadAt)
  qed
qed

lemma BASE64_not_pad': "n < 64 \<Longrightarrow> CHR ''='' \<noteq> BASE64 ! n"
  using BASE64_not_pad [of n] by simp

lemma quadAt_not_pad: "CHR ''='' \<notin> set (quadAt inp i)"
  by (simp add: quadAt_def BASE64_not_pad' sextet1_less sextet2_less sextet3_less sextet4_less)

lemma concat_quads_not_pad: "CHR ''='' \<notin> set (concat (map (quadAt inp) xs))"
  by (simp add: quadAt_not_pad)

lemma takeWhile_none: "(\<And>x. x \<in> set xs \<Longrightarrow> \<not> P x) \<Longrightarrow> takeWhile P xs = []"
  by (cases xs) auto

lemma determinePadding_loop_eq:
  "- 1 \<le> i \<Longrightarrow> i < int (length inp) \<Longrightarrow>
   determinePadding_loop inp i r
     = r + length (takeWhile (\<lambda>c. c = CHR ''='') (rev (take (nat (i + 1)) inp)))"
proof (induction inp i r rule: determinePadding_loop.induct)
  case (1 inp i r)
  show ?case
  proof (cases "i > - 1 \<and> inp ! nat i = CHR ''=''")
    case True
    then have i0: "0 \<le> i" by simp
    with "1.prems" have lt: "nat i < length inp" by simp
    have n: "nat (i + 1) = Suc (nat i)" "nat (i - 1 + 1) = nat i" using i0 by simp_all
    have t: "take (Suc (nat i)) inp = take (nat i) inp @ [CHR ''='']"
      using True lt by (simp add: take_Suc_conv_app_nth)
    have "determinePadding_loop inp (i - 1) (r + 1)
            = r + 1 + length (takeWhile (\<lambda>c. c = CHR ''='') (rev (take (nat (i - 1 + 1)) inp)))"
      using "1.IH" [OF True] i0 "1.prems" by simp
    then show ?thesis
      using True by (subst determinePadding_loop.simps) (simp add: n t)
  next
    case False
    have "takeWhile (\<lambda>c. c = CHR ''='') (rev (take (nat (i + 1)) inp)) = []"
    proof (cases "i = - 1")
      case True
      then show ?thesis by simp
    next
      case ne: False
      with "1.prems" have i0: "0 \<le> i" by simp
      with "1.prems" have lt: "nat i < length inp" by simp
      have n: "nat (i + 1) = Suc (nat i)" using i0 by simp
      from False i0 have "inp ! nat i \<noteq> CHR ''=''" by simp
      then show ?thesis
        using lt by (simp add: n take_Suc_conv_app_nth)
    qed
    then show ?thesis
      using False by (subst determinePadding_loop.simps) auto
  qed
qed

lemma determinePadding_eq:
  "determinePadding inp = length (takeWhile (\<lambda>c. c = CHR ''='') (rev inp))"
  using determinePadding_loop_eq [of "int (length inp) - 1" inp 0]
  by (simp add: determinePadding_def)


lemma base64OfArray_eq:
  "base64OfArray inp = concat (map (quadAt inp) [0..<length inp div 3]) @ tailOf inp"
proof -
  let ?m = "length inp div 3"
  have e: "length inp - ?m * 3 = length inp mod 3"
    by (simp add: minus_div_mult_eq_mod)
  have lt: "(?m * 3 < length inp) = (length inp mod 3 \<noteq> 0)"
    using e by linarith
  have "length inp mod 3 < 3" by simp
  then consider "length inp mod 3 = 0" | "length inp mod 3 = 1" | "length inp mod 3 = 2"
    by linarith
  then show ?thesis
  proof cases
    case 1
    then show ?thesis
      by (simp add: base64OfArray_def Let_def e lt base64OfArray_loop_eq tailOf_def)
  next
    case 2
    then show ?thesis
      by (simp add: base64OfArray_def Let_def e lt base64OfArray_loop_eq tailOf_def
          sextet1_def sextet2_last_def numeral_2_eq_2)
  next
    case 3
    then show ?thesis
      by (simp add: base64OfArray_def Let_def e lt base64OfArray_loop_eq tailOf_def
          sextet1_def sextet2_def sextet3_last_def)
  qed
qed

lemma determinePadding_encoded:
  "determinePadding (base64OfArray inp)
     = (if length inp mod 3 = 1 then 2 else if length inp mod 3 = 2 then 1 else 0)"
proof -
  let ?body = "concat (map (quadAt inp) [0..<length inp div 3])"
  have body: "takeWhile (\<lambda>c. c = CHR ''='') (rev ?body) = []"
  proof (rule takeWhile_none)
    fix x
    assume "x \<in> set (rev ?body)"
    then have "x \<in> set ?body" by simp
    with concat_quads_not_pad [of inp "[0..<length inp div 3]"] show "x \<noteq> CHR ''=''"
      by metis
  qed
  show ?thesis
    by (simp add: determinePadding_eq base64OfArray_eq tailOf_def Let_def body
        BASE64_not_pad sextet2_last_less sextet3_last_less)
qed

lemma length_encoded:
  "length (base64OfArray inp)
     = 4 * (length inp div 3) + (if length inp mod 3 = 0 then 0 else 4)"
proof -
  have "length inp mod 3 < 3" by simp
  then consider "length inp mod 3 = 0" | "length inp mod 3 = 1" | "length inp mod 3 = 2"
    by linarith
  then show ?thesis
    by cases (simp_all add: base64OfArray_eq length_concat_quads tailOf_def Let_def)
qed

lemma nth_encoded_body:
  assumes "j < length inp div 3" "k < 4"
  shows "charCodeAt (base64OfArray inp) (j * 4 + k) = Some (of_char (quadAt inp j ! k))"
proof -
  let ?m = "length inp div 3"
  let ?body = "concat (map (quadAt inp) [0..<?m])"
  have lt: "j * 4 + k < length ?body"
    using assms by (simp add: length_concat_quads)
  have "?body ! (4 * j + k) = quadAt inp ([0..<?m] ! j) ! k"
    using assms by (intro nth_concat_quads) simp_all
  then have "?body ! (j * 4 + k) = quadAt inp j ! k"
    using assms by (simp add: mult.commute)
  then show ?thesis
    using lt by (simp add: charCodeAt_def base64OfArray_eq nth_append)
qed

lemma num64_encoded_body:
  assumes "j < length inp div 3"
  shows "num64OfBase64 (charCodeAt (base64OfArray inp) (j * 4)) = Some (int (sextet1 (inp ! (j * 3))))"
    and "num64OfBase64 (charCodeAt (base64OfArray inp) (j * 4 + 1))
           = Some (int (sextet2 (inp ! (j * 3)) (inp ! (j * 3 + 1))))"
    and "num64OfBase64 (charCodeAt (base64OfArray inp) (j * 4 + 2))
           = Some (int (sextet3 (inp ! (j * 3 + 1)) (inp ! (j * 3 + 2))))"
    and "num64OfBase64 (charCodeAt (base64OfArray inp) (j * 4 + 3))
           = Some (int (sextet4 (inp ! (j * 3 + 2))))"
  using nth_encoded_body [OF assms, of 0] nth_encoded_body [OF assms, of 1]
    nth_encoded_body [OF assms, of 2] nth_encoded_body [OF assms, of 3]
  by (simp_all add: quadAt_def num64_BASE64 sextet1_less sextet2_less sextet3_less sextet4_less)

lemma nth_encoded_tail:
  assumes "k < length (tailOf inp)"
  shows "charCodeAt (base64OfArray inp) (length inp div 3 * 4 + k) = Some (of_char (tailOf inp ! k))"
  using assms
  by (simp add: charCodeAt_def base64OfArray_eq nth_append length_concat_quads mult.commute)

lemma arrayOfBase64_loop_decodes:
  assumes dec: "\<And>j. j < m \<Longrightarrow>
      num64OfBase64 (charCodeAt out (j * 4)) = Some (int (sextet1 (inp ! (j * 3))))
      \<and> num64OfBase64 (charCodeAt out (j * 4 + 1)) = Some (int (sextet2 (inp ! (j * 3)) (inp ! (j * 3 + 1))))
      \<and> num64OfBase64 (charCodeAt out (j * 4 + 2)) = Some (int (sextet3 (inp ! (j * 3 + 1)) (inp ! (j * 3 + 2))))
      \<and> num64OfBase64 (charCodeAt out (j * 4 + 3)) = Some (int (sextet4 (inp ! (j * 3 + 2))))"
    and "i \<le> m"
  shows "\<exists>r. arrayOfBase64_loop out (of_nat m) i result = (m, r)
           \<and> length r = length result
           \<and> (\<forall>j < length result. r ! j = (if 3 * i \<le> j \<and> j < 3 * m then inp ! j else result ! j))"
  using \<open>i \<le> m\<close>
proof (induction "m - i" arbitrary: i result)
  case 0
  then have "i = m" by simp
  then show ?case
    by (subst arrayOfBase64_loop.simps) auto
next
  case (Suc d)
  then have lt: "i < m" by simp
  define result3 where
    "result3 = result[i * 3 := inp ! (i * 3), i * 3 + 1 := inp ! (i * 3 + 1),
                      i * 3 + 2 := inp ! (i * 3 + 2)]"
  have step: "arrayOfBase64_loop out (of_nat m) i result
                = arrayOfBase64_loop out (of_nat m) (i + 1) result3"
    using lt dec [OF lt]
    by (subst arrayOfBase64_loop.simps)
       (simp add: Let_def store_def decode1 decode2 decode3 result3_def)
  from Suc.hyps(2) lt have "d = m - (i + 1)" "i + 1 \<le> m" by simp_all
  from Suc.hyps(1) [OF this] obtain r where
    r: "arrayOfBase64_loop out (of_nat m) (i + 1) result3 = (m, r)"
       "length r = length result3"
       "\<forall>j < length result3. r ! j = (if 3 * (i + 1) \<le> j \<and> j < 3 * m then inp ! j else result3 ! j)"
    by blast
  have len: "length result3 = length result" by (simp add: result3_def)
  have "r ! j = (if 3 * i \<le> j \<and> j < 3 * m then inp ! j else result ! j)"
    if "j < length result" for j
  proof -
    from r(3) that len
    have rj: "r ! j = (if 3 * (i + 1) \<le> j \<and> j < 3 * m then inp ! j else result3 ! j)"
      by simp
    consider "j < 3 * i" | "j = i * 3" | "j = i * 3 + 1" | "j = i * 3 + 2" | "3 * (i + 1) \<le> j"
      by atomize_elim arith
    then show ?thesis
    proof cases
      case 1
      then show ?thesis using rj by (simp add: result3_def)
    next
      case 2
      then show ?thesis using rj that lt by (simp add: result3_def)
    next
      case 3
      then show ?thesis using rj that lt by (simp add: result3_def)
    next
      case 4
      then show ?thesis using rj that lt by (simp add: result3_def)
    next
      case 5
      then show ?thesis using rj by (simp add: result3_def)
    qed
  qed
  with r(1,2) step len show ?case by simp
qed


lemma floor_rat0: "nat \<lfloor>rat_of_nat m * 3\<rfloor> = 3 * m"
proof -
  have "rat_of_nat m * 3 = of_nat (3 * m)" by simp
  then show ?thesis by (simp only: floor_of_nat nat_int)
qed

lemma fullQuads_rat4: "(4 * rat_of_nat m + 4) / 4 - 1 = rat_of_nat m"
  by (simp add: add_divide_distrib)

lemma floor_rat12: "\<lfloor>(12 * rat_of_nat m + 12) / 4\<rfloor> = int (3 * m + 3)"
proof -
  have "(12 * rat_of_nat m + 12) / 4 = of_nat (3 * m + 3)"
    by (simp add: add_divide_distrib)
  then show ?thesis by (simp only: floor_of_nat)
qed

lemma floor_len2: "nat (\<lfloor>(12 * rat_of_nat m + 12) / 4\<rfloor> - 2) = 3 * m + 1"
  by (simp only: floor_rat12)

lemma floor_len1: "nat (\<lfloor>(12 * rat_of_nat m + 12) / 4\<rfloor> - 1) = 3 * m + 2"
  by (simp only: floor_rat12)

lemma arrayOfBase64_base64OfArray: "arrayOfBase64 (base64OfArray inp) = inp"
proof -
  define m where "m = length inp div 3"
  let ?out = "base64OfArray inp"
  have dv: "length inp div 3 = m" by (simp add: m_def)
  have dec: "\<And>j. j < m \<Longrightarrow>
      num64OfBase64 (charCodeAt ?out (j * 4)) = Some (int (sextet1 (inp ! (j * 3))))
      \<and> num64OfBase64 (charCodeAt ?out (j * 4 + 1)) = Some (int (sextet2 (inp ! (j * 3)) (inp ! (j * 3 + 1))))
      \<and> num64OfBase64 (charCodeAt ?out (j * 4 + 2)) = Some (int (sextet3 (inp ! (j * 3 + 1)) (inp ! (j * 3 + 2))))
      \<and> num64OfBase64 (charCodeAt ?out (j * 4 + 3)) = Some (int (sextet4 (inp ! (j * 3 + 2))))"
    using num64_encoded_body [of _ inp] by (simp add: m_def)
  have loop: "\<exists>r. arrayOfBase64_loop ?out (of_nat m) 0 (replicate n 0) = (m, r)
           \<and> length r = n \<and> (\<forall>j < n. r ! j = (if j < 3 * m then inp ! j else 0))" for n
    using arrayOfBase64_loop_decodes [of m ?out inp 0 "replicate n 0", OF dec] by auto
  have L: "length inp = 3 * m + length inp mod 3" by (simp add: m_def)
  have "length inp mod 3 < 3" by simp
  then consider "length inp mod 3 = 0" | "length inp mod 3 = 1" | "length inp mod 3 = 2"
    by linarith
  then show ?thesis
  proof cases
    case 1
    with L have len: "length inp = 3 * m" by simp
    from loop [of "3 * m"] obtain r where
      r: "arrayOfBase64_loop ?out (of_nat m) 0 (replicate (3 * m) 0) = (m, r)"
         "length r = 3 * m" "\<forall>j < 3 * m. r ! j = (if j < 3 * m then inp ! j else 0)"
      by blast
    have "arrayOfBase64 ?out = r"
      using 1 r(1)
      by (simp add: arrayOfBase64_def determinePadding_encoded length_encoded Let_def dv
          new_Uint8Array_def floor_rat0)
    moreover have "r = inp"
      using r(2,3) len by (intro nth_equalityI) auto
    ultimately show ?thesis by simp
  next
    case 2
    with L have len: "length inp = 3 * m + 1" by simp
    from loop [of "3 * m + 1"] obtain r where
      r: "arrayOfBase64_loop ?out (of_nat m) 0 (replicate (3 * m + 1) 0) = (m, r)"
         "length r = 3 * m + 1" "\<forall>j < 3 * m + 1. r ! j = (if j < 3 * m then inp ! j else 0)"
      by blast
    have t: "tailOf inp = [BASE64 ! sextet1 (inp ! (m * 3)), BASE64 ! sextet2_last (inp ! (m * 3)),
                          CHR ''='', CHR ''='']"
      using 2 by (simp add: tailOf_def Let_def dv)
    have c: "num64OfBase64 (charCodeAt ?out (m * 4)) = Some (int (sextet1 (inp ! (m * 3))))"
            "num64OfBase64 (charCodeAt ?out (m * 4 + 1)) = Some (int (sextet2_last (inp ! (m * 3))))"
      using nth_encoded_tail [of 0 inp] nth_encoded_tail [of 1 inp]
      by (simp_all add: t dv num64_BASE64 sextet1_less sextet2_last_less)
    have "arrayOfBase64 ?out = r[m * 3 := inp ! (m * 3)]"
      using 2 r(1) c
      by (simp add: arrayOfBase64_def determinePadding_encoded length_encoded Let_def dv
          new_Uint8Array_def fullQuads_rat4 floor_len2 store_def decode1_last)
    moreover have "r[m * 3 := inp ! (m * 3)] = inp"
      using r(2,3) len by (intro nth_equalityI) (auto simp: nth_list_update)
    ultimately show ?thesis by simp
  next
    case 3
    with L have len: "length inp = 3 * m + 2" by simp
    from loop [of "3 * m + 2"] obtain r where
      r: "arrayOfBase64_loop ?out (of_nat m) 0 (replicate (3 * m + 2) 0) = (m, r)"
         "length r = 3 * m + 2" "\<forall>j < 3 * m + 2. r ! j = (if j < 3 * m then inp ! j else 0)"
      by blast
    have t: "tailOf inp = [BASE64 ! sextet1 (inp ! (m * 3)),
                          BASE64 ! sextet2 (inp ! (m * 3)) (inp ! (m * 3 + 1)),
                          BASE64 ! sextet3_last (inp ! (m * 3 + 1)), CHR ''='']"
      using 3 by (simp add: tailOf_def Let_def dv)
    have c: "num64OfBase64 (charCodeAt ?out (m * 4)) = Some (int (sextet1 (inp ! (m * 3))))"
            "num64OfBase64 (charCodeAt ?out (m * 4 + 1))
               = Some (int (sextet2 (inp ! (m * 3)) (inp ! (m * 3 + 1))))"
            "num64OfBase64 (charCodeAt ?out (m * 4 + 2))
               = Some (int (sextet3_last (inp ! (m * 3 + 1))))"
      using nth_encoded_tail [of 0 inp] nth_encoded_tail [of 1 inp] nth_encoded_tail [of 2 inp]
      by (simp_all add: t dv num64_BASE64 sextet1_less sextet2_less sextet3_last_less)
    have "arrayOfBase64 ?out = r[m * 3 := inp ! (m * 3), m * 3 + 1 := inp ! (m * 3 + 1)]"
      using 3 r(1) c
      by (simp add: arrayOfBase64_def determinePadding_encoded length_encoded Let_def dv
          new_Uint8Array_def fullQuads_rat4 floor_len1 store_def decode1 decode2_last)
    moreover have "r[m * 3 := inp ! (m * 3), m * 3 + 1 := inp ! (m * 3 + 1)] = inp"
      using r(2,3) len by (intro nth_equalityI) (auto simp: nth_list_update)
    ultimately show ?thesis by simp
  qed
qed

subsection \<open>The array that \<open>arrayOfBase64\<close> allocates\<close>

lemma determinePadding_le: "determinePadding inp \<le> length inp"
  using length_takeWhile_le [of "\<lambda>c. c = CHR ''=''" "rev inp"]
  by (simp add: determinePadding_eq)

lemma resultLength_bound:
  "- 1 < (if determinePadding inp = 0 then of_nat (length inp) / 4 * 3
          else if determinePadding inp = 1 then of_nat (length inp) / 4 * 3 - 1
          else of_nat (length inp) / 4 * 3 - 2 :: rat)"
proof -
  define x :: rat where "x = of_nat (length inp)"
  have x0: "0 \<le> x" by (simp add: x_def)
  have xp: "of_nat (determinePadding inp) \<le> x"
    unfolding x_def using determinePadding_le [of inp] by (simp only: of_nat_le_iff)
  consider "determinePadding inp = 0" | "determinePadding inp = 1" | "2 \<le> determinePadding inp"
    by linarith
  then show ?thesis
  proof cases
    case 1
    then show ?thesis using x0 by (simp add: x_def [symmetric])
  next
    case 2
    with xp have "1 \<le> x" by simp
    then have "- 1 < x / 4 * 3 - 1" by simp
    with 2 show ?thesis by (simp add: x_def [symmetric])
  next
    case 3
    then have "(2 :: rat) \<le> of_nat (determinePadding inp)" by simp
    with xp have "2 \<le> x" by linarith
    then have "- 1 < x / 4 * 3 - 2" by simp
    with 3 show ?thesis by (simp add: x_def [symmetric])
  qed
qed

section \<open>The handshake\<close>

subsection \<open>Hexadecimal text of byte arrays\<close>

lemma foldl_append_acc:
  "foldl (\<lambda>result b. result @ f b) acc xs = acc @ concat (map f xs)"
  by (induction xs arbitrary: acc) simp_all

lemma hexOfArray_concat:
  "hexOfArray inp = concat (map (\<lambda>b. padZeroPrefix (BI_toString 16 (uint b))) inp)"
  by (simp add: hexOfArray_def foldl_append_acc)

lemma hexOfArray_zero_Cons: "hexOfArray (0 # rest) = CHR ''0'' # CHR ''0'' # hexOfArray rest"
proof -
  have "padZeroPrefix (BI_toString 16 (uint (0 :: byte))) = ''00''"
    by code_simp
  then show ?thesis by (simp add: hexOfArray_concat)
qed

lemma step2_session_unchanged: "snd (step2 E s m) = s"
  by (simp add: step2_def Let_def)

lemma step2_leading_zero_byte:
  assumes "hash E (this_AHex s @ this_M1Hex s @ nonprefixedHexOfPositiveBI (this_S s)) = 0 # rest"
  shows "fst (step2 E s m) = Inr (Fail ''Bad server credentials (M2)'')"
proof -
  let ?P = "\<lambda>c. c = CHR ''0''"
  let ?client = "hexOfBuff (hash E (this_AHex s @ this_M1Hex s @ nonprefixedHexOfPositiveBI (this_S s)))"
  have "2 \<le> length (takeWhile ?P ?client)"
    by (simp add: assms hexOfBuff_def hexOfArray_zero_Cons)
  moreover have "length (takeWhile ?P (hexOfBase64 m)) \<le> 1"
    by (simp only: hexOfBase64_def trimHexZeroes_eq_spec canonical_hex_spec_leading)
  ultimately have "?client \<noteq> hexOfBase64 m"
    by auto
  then show ?thesis
    by (simp add: step2_def Let_def)
qed



lemma b64_zero: "base64OfBigInt 0 = []"
  by code_simp

lemma bigint_empty: "bigintOfBase64 [] = Inl (SyntaxError ''Cannot convert 0x to a BigInt'')"
  by code_simp

lemma step1_empty_B:
  assumes "randomA E (s\<lparr>this_I := identity, this_P := password\<rparr>) = Some (Inr a)"
    and "modPow (this_g s) a (this_N s) = Some (Inr ANum)"
  shows "step1 E s identity password saltB64 []
           = Some (Inl (SyntaxError ''Cannot convert 0x to a BigInt''),
                   s\<lparr>this_I := identity, this_P := password\<rparr>)"
  using assms by (simp add: step1_def Let_def bigint_empty)

subsection \<open>\<open>BI.BigInt\<close> of the hexadecimal text of a byte array\<close>

lemma hex_digit_value_HEX_DIGITS:
  "n < 16 \<Longrightarrow> hex_digit_value (HEX_DIGITS ! n) = Some (int n)"
proof -
  have "\<forall>n \<in> set [0..<16]. hex_digit_value (HEX_DIGITS ! n) = Some (int n)"
    by code_simp
  then show "n < 16 \<Longrightarrow> ?thesis" by simp
qed

lemma nibble_hi: "drop_bit 4 (unat (b :: byte)) < 16"
proof -
  have "unat b < 2 ^ LENGTH(8)" by (rule unsigned_less)
  then show ?thesis by (simp add: drop_bit_eq_div)
qed

lemma nibble_lo: "unat (b :: byte) AND 15 < 16"
  using take_bit_eq_mask [of 4 "unat b"] by (simp add: take_bit_eq_mod mask_eq_exp_minus_1)

lemma nibbles_value: "int (drop_bit 4 (unat (b :: byte))) * 16 + int (unat b AND 15) = uint b"
proof -
  have "unat b AND 15 = unat b mod 16"
    using take_bit_eq_mask [of 4 "unat b"] by (simp add: take_bit_eq_mod mask_eq_exp_minus_1)
  then have "drop_bit 4 (unat b) * 16 + (unat b AND 15) = unat b"
    by (simp add: drop_bit_eq_div)
  then have "int (drop_bit 4 (unat b) * 16 + (unat b AND 15)) = int (unat b)"
    by simp
  then show ?thesis by simp
qed

lemma is_digit_hex_pair: "list_all (is_digit_of 16) (hex_pair b)"
  by (simp add: hex_pair_def is_digit_of_def hex_digit_value_HEX_DIGITS nibble_hi nibble_lo)

lemma list_all_hex_pairs: "list_all (is_digit_of 16) (concat (map hex_pair bs))"
  by (induction bs) (simp_all add: is_digit_hex_pair)

lemma foldl_hex_pairs:
  "foldl (\<lambda>acc c. acc * 16 + the (hex_digit_value c)) acc (concat (map hex_pair bs))
     = foldl (\<lambda>acc b. acc * 256 + uint b) acc bs"
proof (induction bs arbitrary: acc)
  case Nil
  then show ?case by simp
next
  case (Cons b bs)
  have v: "(acc * 16 + int (drop_bit 4 (unat b))) * 16 + int (unat b AND 15) = acc * 256 + uint b"
    using nibbles_value [of b] by (simp add: algebra_simps)
  have "foldl (\<lambda>acc c. acc * 16 + the (hex_digit_value c)) acc (hex_pair b)
          = (acc * 16 + int (drop_bit 4 (unat b))) * 16 + int (unat b AND 15)"
    by (simp add: hex_pair_def hex_digit_value_HEX_DIGITS nibble_hi nibble_lo)
  then have "foldl (\<lambda>acc c. acc * 16 + the (hex_digit_value c)) acc (hex_pair b) = acc * 256 + uint b"
    by (simp only: v)
  then show ?case
    using Cons.IH [of "acc * 256 + uint b"] by simp
qed

lemma hex_digit_not_whitespace: "is_digit_of 16 c \<Longrightarrow> \<not> is_whitespace c"
proof -
  assume d: "is_digit_of 16 c"
  have i: "(of_char c :: int) = int (of_char c :: nat)" by (simp only: of_nat_of_char)
  from d have "48 \<le> (of_char c :: int)"
    by (auto simp: is_digit_of_def hex_digit_value_def Let_def split: option.splits if_splits)
  with i have "48 \<le> (of_char c :: nat)" by linarith
  moreover from d have "(of_char c :: int) \<le> 102"
    by (auto simp: is_digit_of_def hex_digit_value_def Let_def split: option.splits if_splits)
  with i have "(of_char c :: nat) \<le> 102" by linarith
  ultimately show ?thesis by (simp add: is_whitespace_def Let_def)
qed

lemma trim_no_whitespace:
  assumes "t \<noteq> []" "\<not> is_whitespace (hd t)" "\<not> is_whitespace (last t)"
  shows "trim t = t"
proof -
  from assms have 1: "dropWhile is_whitespace t = t"
    by (simp add: dropWhile_eq_self_iff)
  from assms have 2: "dropWhile is_whitespace (rev t) = rev t"
    by (simp add: dropWhile_eq_self_iff hd_rev)
  show ?thesis by (simp add: trim_def 1 2)
qed

lemma BI_BigInt_prefixed_hex:
  assumes "bs \<noteq> []"
  shows "BI_BigInt (''0x'' @ concat (map hex_pair bs)) = Inr (bytes_value bs)"
proof -
  let ?ds = "concat (map hex_pair bs)"
  have ne: "?ds \<noteq> []"
    using assms by (cases bs) (simp_all add: hex_pair_def)
  have "last ?ds \<in> set ?ds" using ne by (rule last_in_set)
  moreover have "\<forall>c \<in> set ?ds. is_digit_of 16 c"
    using list_all_hex_pairs [of bs] by (simp only: list_all_iff)
  ultimately have d: "is_digit_of 16 (last ?ds)" by blast
  have "last (''0x'' @ ?ds) = last ?ds" using ne by (rule last_appendR)
  with hex_digit_not_whitespace [OF d] have l: "\<not> is_whitespace (last (''0x'' @ ?ds))"
    by (simp only: simp_thms)
  have h: "\<not> is_whitespace (hd (''0x'' @ ?ds))"
    by (simp add: is_whitespace_def)
  have t: "trim (''0x'' @ ?ds) = ''0x'' @ ?ds"
    using h l by (intro trim_no_whitespace) simp_all
  have "BI_BigInt (''0x'' @ ?ds) = digits_or_error (''0x'' @ ?ds) 1 16 ?ds"
    unfolding BI_BigInt_def t Let_def by simp
  also have "\<dots> = Inr (bytes_value bs)"
    using ne by (simp add: digits_or_error_def list_all_hex_pairs digits_value_def foldl_hex_pairs bytes_value_def)
  finally show ?thesis .
qed

lemma BI_BigInt_prefixedHexOfArray:
  "bs \<noteq> [] \<Longrightarrow> BI_BigInt (prefixedHexOfArray bs) = Inr (bytes_value bs)"
  using BI_BigInt_prefixed_hex [of bs] by (simp add: prefixedHexOfArray_def hex_pair_def [abs_def])

lemma BI_BigInt_prefixedHexOfBuff:
  "bs \<noteq> [] \<Longrightarrow> BI_BigInt (prefixedHexOfBuff bs) = Inr (bytes_value bs)"
  using BI_BigInt_prefixed_hex [of bs] by (simp add: prefixedHexOfBuff_def hex_pair_def [abs_def])

lemma foldl_bytes_mod:
  "foldl (\<lambda>acc b. acc * 256 + uint b) acc bs mod N
     = foldl (\<lambda>acc (b :: byte). (acc * 256 + uint b) mod N) (acc mod N) bs mod N"
proof (induction bs arbitrary: acc)
  case Nil
  then show ?case by simp
next
  case (Cons b bs)
  have "(acc mod N * 256 + uint b) mod N = (acc * 256 + uint b) mod N"
    by (metis mod_add_left_eq mod_mult_left_eq)
  then show ?case
    using Cons.IH [of "acc * 256 + uint b"] by simp
qed

lemma bytes_value_mod:
  "bytes_value bs mod N = foldl (\<lambda>acc (b :: byte). (acc * 256 + uint b) mod N) 0 bs mod N"
  using foldl_bytes_mod [of 0 bs N] by (simp add: bytes_value_def)

lemma bytes_value_nonneg: "0 \<le> bytes_value bs"
proof -
  have "0 \<le> acc \<Longrightarrow> 0 \<le> foldl (\<lambda>acc (b :: byte). acc * 256 + uint b) acc bs" for acc
    by (induction bs arbitrary: acc) simp_all
  then show ?thesis by (simp add: bytes_value_def)
qed

subsection \<open>Runs of \<open>randomA\<close> and \<open>step1\<close> on the concrete platforms\<close>

lemma constructor_fresh_session: "constructor ''23'' ''5'' ''0x3'' = Inr fresh_session"
  by code_simp

lemma randomA_first_draw:
  assumes N: "0 < this_N s"
    and r: "(bytes_value (hash E (this_I s @ '':'' @ this_salt s @ '':'' @ BI_toString 10 (getTime E 0)))
              + bytes_value (map (random_byte E 0) [0..<512])) mod this_N s = a"
    and a: "a \<noteq> 0"
  shows "randomA E s = Some (Inr a)"
proof -
  let ?one = "bytes_value (hash E (this_I s @ '':'' @ this_salt s @ '':'' @ BI_toString 10 (getTime E 0)))"
  let ?rBi = "bytes_value (map (random_byte E 0) [0..<512])"
  have 1: "BI_BigInt (randomHex E 0 512) = Inr ?rBi"
    by (simp add: randomHex_def BI_BigInt_prefixedHexOfArray)
  have 2: "BI_BigInt (prefixedHexOfBuff (hash E (this_I s @ '':'' @ this_salt s @ '':'' @ BI_toString 10 (getTime E 0))))
             = Inr ?one"
    by (simp add: BI_BigInt_prefixedHexOfBuff hash_def)
  have "0 \<le> ?one + ?rBi"
    using bytes_value_nonneg [of "hash E (this_I s @ '':'' @ this_salt s @ '':'' @ BI_toString 10 (getTime E 0))"]
      bytes_value_nonneg [of "map (random_byte E 0) [0..<512]"]
    by linarith
  then have 3: "BI_remainder_checked (?one + ?rBi) (this_N s) = Inr a"
    using N r by (simp add: BI_remainder_checked_def BI_remainder_nonneg)
  show ?thesis
    unfolding randomA_def
    using 1 2 3 a by (subst randomA_loop.simps) (simp add: Let_def ZERO_def)
qed

lemma fold_random_A: "foldl (\<lambda>acc b. (acc * 256 + uint b) mod 23) 0 (replicate 512 (0x3b :: byte)) = 17"
  by code_simp

lemma fold_digest_A: "foldl (\<lambda>acc b. (acc * 256 + uint b) mod 23) 0 (replicate 32 (0x5d :: byte)) = 15"
  by code_simp

lemma fold_digest_B: "foldl (\<lambda>acc b. (acc * 256 + uint b) mod 23) 0 (0 # replicate 31 (0x5d :: byte)) = 20"
  by code_simp

lemma upt_32: "[0..<32] = 0 # [1..<32]"
  by (simp add: upt_conv_Cons)

lemma hash_demo_platform: "x \<noteq> [] \<Longrightarrow> hash demo_platform x = replicate 32 0x5d"
  by (simp add: hash_def demo_platform_def map_replicate_const)

lemma hash_demo_platform_zero: "hash demo_platform_zero x = 0 # replicate 31 0x5d"
proof -
  have "map (\<lambda>p. if p = 0 then 0 else (0x5d :: byte)) [1..<32] = map (\<lambda>p. 0x5d) [1..<32]"
    by (rule map_cong) auto
  then show ?thesis
    by (simp add: hash_def demo_platform_zero_def upt_32 map_replicate_const)
qed

lemma random_demo_platform: "map (random_byte demo_platform n) [0..<512] = replicate 512 0x3b"
  by (simp add: demo_platform_def map_replicate_const)

lemma random_demo_platform_zero: "map (random_byte demo_platform_zero n) [0..<512] = replicate 512 0x3b"
  by (simp add: demo_platform_zero_def map_replicate_const)

lemma randomA_demo_platform:
  "randomA demo_platform (fresh_session\<lparr>this_I := ''alice'', this_P := ''pw''\<rparr>) = Some (Inr 9)"
proof (rule randomA_first_draw)
  show "0 < this_N (fresh_session\<lparr>this_I := ''alice'', this_P := ''pw''\<rparr>)"
    by (simp add: fresh_session_def)
  have "(bytes_value (replicate 32 (0x5d :: byte)) + bytes_value (replicate 512 (0x3b :: byte))) mod 23
          = (bytes_value (replicate 32 (0x5d :: byte)) mod 23 + bytes_value (replicate 512 (0x3b :: byte)) mod 23) mod 23"
    by (simp add: mod_add_eq)
  also have "\<dots> = 9"
    by (simp only: bytes_value_mod fold_random_A fold_digest_A) simp
  finally show "(bytes_value (hash demo_platform (this_I (fresh_session\<lparr>this_I := ''alice'', this_P := ''pw''\<rparr>)
                   @ '':'' @ this_salt (fresh_session\<lparr>this_I := ''alice'', this_P := ''pw''\<rparr>) @ '':''
                   @ BI_toString 10 (getTime demo_platform 0)))
                 + bytes_value (map (random_byte demo_platform 0) [0..<512]))
                mod this_N (fresh_session\<lparr>this_I := ''alice'', this_P := ''pw''\<rparr>) = 9"
    by (simp add: hash_demo_platform random_demo_platform fresh_session_def)
  show "(9::int) \<noteq> 0" by simp
qed

lemma step1_demo_platform_empty:
  "step1 demo_platform fresh_session ''alice'' ''pw'' ''AAAA'' []
     = Some (Inl (SyntaxError ''Cannot convert 0x to a BigInt''),
             fresh_session\<lparr>this_I := ''alice'', this_P := ''pw''\<rparr>)"
proof -
  have m: "modPow (this_g fresh_session) 9 (this_N fresh_session) = Some (Inr 11)"
    by code_simp
  from step1_empty_B [OF randomA_demo_platform] m show ?thesis
    by simp
qed





lemma randomA_demo_platform_zero:
  "randomA demo_platform_zero (fresh_session\<lparr>this_I := ''alice'', this_P := ''pw''\<rparr>) = Some (Inr 14)"
proof (rule randomA_first_draw)
  show "0 < this_N (fresh_session\<lparr>this_I := ''alice'', this_P := ''pw''\<rparr>)"
    by (simp add: fresh_session_def)
  have "(bytes_value (0 # replicate 31 (0x5d :: byte)) + bytes_value (replicate 512 (0x3b :: byte))) mod 23
          = (bytes_value (0 # replicate 31 (0x5d :: byte)) mod 23 + bytes_value (replicate 512 (0x3b :: byte)) mod 23) mod 23"
    by (simp add: mod_add_eq)
  also have "\<dots> = 14"
    by (simp only: bytes_value_mod fold_random_A fold_digest_B) simp
  finally show "(bytes_value (hash demo_platform_zero (this_I (fresh_session\<lparr>this_I := ''alice'', this_P := ''pw''\<rparr>)
                   @ '':'' @ this_salt (fresh_session\<lparr>this_I := ''alice'', this_P := ''pw''\<rparr>) @ '':''
                   @ BI_toString 10 (getTime demo_platform_zero 0)))
                 + bytes_value (map (random_byte demo_platform_zero 0) [0..<512]))
                mod this_N (fresh_session\<lparr>this_I := ''alice'', this_P := ''pw''\<rparr>) = 14"
    by (simp add: hash_demo_platform_zero random_demo_platform_zero fresh_session_def)
  show "(14::int) \<noteq> 0" by simp
qed

lemma step1_demo_platform_zero:
  "step1 demo_platform_zero fresh_session ''alice'' ''pw'' ''AAAA'' ''Bw==''
     = Some (Inr (Ok \<lparr>AB64 = ''DQ=='', M1B64 = ''AF1dXV1dXV1dXV1dXV1dXV1dXV1dXV1dXV1dXV1dXV0=''\<rparr>),
             session_after_step1)"
  unfolding step1_def Let_def randomA_demo_platform_zero
  by code_simp

subsection \<open>A run of \<open>step1\<close> in which \<open>x\<close> is zero\<close>

text \<open>
  When the digest that \<open>generateX\<close> reduces is 0 modulo \<open>N\<close>, \<open>step1\<close> computes the
  verifier as \<open>modPow g 0 N\<close>, which never returns.
\<close>

lemma modPow_returns_modulus: "modPow x y N = Some (Inr r) \<Longrightarrow> 1 < N"
  by (cases "1 < N") (simp_all add: modPow_nonpos_modulus)

lemma step1_zero_x_never_returns:
  assumes "randomA E (s\<lparr>this_I := identity, this_P := password\<rparr>) = Some (Inr a)"
    and "modPow (this_g s) a (this_N s) = Some (Inr ANum)"
    and "bigintOfBase64 serverBB64 = Inr B"
    and "BI_remainder B (this_N s) \<noteq> 0"
    and "generateX E (s\<lparr>this_I := identity, this_P := password, this_B := B\<rparr>)
           (hexOfBase64 saltB64) identity password = Inr 0"
    and "computeU E (nonprefixedHexOfPositiveBI ANum) (hexOfBase64 serverBB64) = Inr (Some u)"
  shows "step1 E s identity password saltB64 serverBB64 = None"
proof -
  have N: "1 < this_N s" using assms(2) by (rule modPow_returns_modulus)
  then have "modPow (this_g s) 0 (this_N s) = None" by (rule modPow_zero_None)
  then show ?thesis
    using assms N by (simp add: step1_def Let_def BI_remainder_checked_def ZERO_def)
qed

lemma fold_digest_x0: "foldl (\<lambda>acc b. (acc * 256 + uint b) mod 23) 0 (replicate 32 (0x5c :: byte)) = 0"
  by code_simp

lemma hash_demo_platform_x0: "hash demo_platform_x0 x = replicate 32 0x5c"
  by (simp add: hash_def demo_platform_x0_def map_replicate_const)

lemma random_demo_platform_x0: "map (random_byte demo_platform_x0 n) [0..<512] = replicate 512 0x3b"
  by (simp add: demo_platform_x0_def map_replicate_const)

lemma randomA_demo_platform_x0:
  "randomA demo_platform_x0 (fresh_session\<lparr>this_I := ''alice'', this_P := ''pw''\<rparr>) = Some (Inr 17)"
proof (rule randomA_first_draw)
  show "0 < this_N (fresh_session\<lparr>this_I := ''alice'', this_P := ''pw''\<rparr>)"
    by (simp add: fresh_session_def)
  have "(bytes_value (replicate 32 (0x5c :: byte)) + bytes_value (replicate 512 (0x3b :: byte))) mod 23
          = (bytes_value (replicate 32 (0x5c :: byte)) mod 23 + bytes_value (replicate 512 (0x3b :: byte)) mod 23) mod 23"
    by (simp add: mod_add_eq)
  also have "\<dots> = 17"
    by (simp only: bytes_value_mod fold_random_A fold_digest_x0) simp
  finally show "(bytes_value (hash demo_platform_x0 (this_I (fresh_session\<lparr>this_I := ''alice'', this_P := ''pw''\<rparr>)
                   @ '':'' @ this_salt (fresh_session\<lparr>this_I := ''alice'', this_P := ''pw''\<rparr>) @ '':''
                   @ BI_toString 10 (getTime demo_platform_x0 0)))
                 + bytes_value (map (random_byte demo_platform_x0 0) [0..<512]))
                mod this_N (fresh_session\<lparr>this_I := ''alice'', this_P := ''pw''\<rparr>) = 17"
    by (simp add: hash_demo_platform_x0 random_demo_platform_x0 fresh_session_def)
  show "(17::int) \<noteq> 0" by simp
qed

lemma step1_demo_platform_x0:
  "step1 demo_platform_x0 fresh_session ''alice'' ''pw'' ''AAAA'' ''Bw=='' = None"
proof (rule step1_zero_x_never_returns)
  show "randomA demo_platform_x0 (fresh_session\<lparr>this_I := ''alice'', this_P := ''pw''\<rparr>) = Some (Inr 17)"
    by (rule randomA_demo_platform_x0)
  show "modPow (this_g fresh_session) 17 (this_N fresh_session) = Some (Inr 15)"
    by code_simp
  show "bigintOfBase64 ''Bw=='' = Inr 7"
    by code_simp
  show "BI_remainder 7 (this_N fresh_session) \<noteq> 0"
    by code_simp
  show "generateX demo_platform_x0 (fresh_session\<lparr>this_I := ''alice'', this_P := ''pw'', this_B := 7\<rparr>)
          (hexOfBase64 ''AAAA'') ''alice'' ''pw'' = Inr 0"
    by code_simp
  show "computeU demo_platform_x0 (nonprefixedHexOfPositiveBI 15) (hexOfBase64 ''Bw=='')
          = Inr (Some 41775969450325843054778551454114853029415053291133066241686657759717678144604)"
    by code_simp
qed

section \<open>The claims\<close>

subsection \<open>Claims about the kernel\<close>

text \<open>
  C6. For strictly positive \<open>a\<close> and \<open>b\<close>, \<open>eGcd a b\<close> returns a triple
  \<open>(g, x, y)\<close> with \<open>a * x + b * y = g\<close> and \<open>g = gcd a b\<close>; it throws its
  RangeError exactly when \<open>a \<le> 0\<close> or \<open>b \<le> 0\<close>.
\<close>

theorem eGcd_spec:
  "(0 < a \<and> 0 < b \<longrightarrow>
      (\<exists>r. eGcd a b = Inr r \<and> a * Egcd_x r + b * Egcd_y r = Egcd_g r \<and> Egcd_g r = gcd a b))
   \<and> (eGcd a b = Inl (RangeError ''a and b MUST be > 0'') \<longleftrightarrow> a \<le> 0 \<or> b \<le> 0)
   \<and> (isl (eGcd a b) \<longleftrightarrow> a \<le> 0 \<or> b \<le> 0)"
proof (intro conjI impI)
  assume "0 < a \<and> 0 < b"
  then show "\<exists>r. eGcd a b = Inr r \<and> a * Egcd_x r + b * Egcd_y r = Egcd_g r \<and> Egcd_g r = gcd a b"
    using eGcd_correct by blast
next
  show "eGcd a b = Inl (RangeError ''a and b MUST be > 0'') \<longleftrightarrow> a \<le> 0 \<or> b \<le> 0"
    by (simp add: eGcd_def ZERO_def)
next
  show "isl (eGcd a b) \<longleftrightarrow> a \<le> 0 \<or> b \<le> 0"
    by (simp add: eGcd_def ZERO_def)
qed

theorem eGcd_spec_witness:
  "(0::int) < 12 \<and> (0::int) < 18
   \<and> (\<exists>r. eGcd 12 18 = Inr r \<and> 12 * Egcd_x r + 18 * Egcd_y r = Egcd_g r \<and> Egcd_g r = gcd 12 18)
   \<and> \<not> isl (eGcd 12 18)"
  using eGcd_spec [of 12 18] by simp

text \<open>
  C7, as the code has it. For \<open>n > 1\<close> and \<open>gcd a n = 1\<close>, \<open>modInv a n\<close> returns
  \<open>r\<close> with \<open>0 \<le> r < n\<close> and \<open>r * a mod n = 1\<close>; it throws exactly when
  \<open>gcd a n \<noteq> 1\<close> or \<open>n \<le> 1\<close>. The modulus 1 is rejected too: \<open>toZn a 1\<close> is 0,
  which \<open>eGcd\<close> refuses.
\<close>

theorem modInv_spec:
  "(1 < n \<and> gcd a n = 1 \<longrightarrow>
      (\<exists>r. modInv a n = Inr r \<and> 0 \<le> r \<and> r < n \<and> (r * a) mod n = 1))
   \<and> (isl (modInv a n) \<longleftrightarrow> gcd a n \<noteq> 1 \<or> n \<le> 1)"
proof (intro conjI impI)
  assume "1 < n \<and> gcd a n = 1"
  then show "\<exists>r. modInv a n = Inr r \<and> 0 \<le> r \<and> r < n \<and> (r * a) mod n = 1"
    using modInv_inverse [of n a] by simp
next
  show "isl (modInv a n) \<longleftrightarrow> gcd a n \<noteq> 1 \<or> n \<le> 1"
    by (rule modInv_fails_iff)
qed

theorem modInv_spec_witness:
  "(1::int) < 7 \<and> gcd (3::int) 7 = 1
   \<and> (\<exists>r. modInv 3 7 = Inr r \<and> 0 \<le> r \<and> r < 7 \<and> (r * 3) mod 7 = 1)
   \<and> \<not> isl (modInv 3 7)"
proof -
  have g: "gcd (3::int) 7 = 1" by code_simp
  show ?thesis using modInv_spec [of 7 3] g by simp
qed

text \<open>
  C7 as stated says that \<open>modInv\<close> fails exactly when \<open>gcd a n \<noteq> 1\<close> or
  \<open>n \<le> 0\<close>. At \<open>a = 5\<close>, \<open>n = 1\<close> neither holds and the call fails.
\<close>

theorem modInv_modulus_one_counterexample:
  "\<not> (isl (modInv 5 1) \<longleftrightarrow> gcd (5::int) 1 \<noteq> 1 \<or> (1::int) \<le> 0)"
  by (simp add: modInv_one)

text \<open>
  C2, as the code has it. For \<open>N > 1\<close> and a positive exponent, \<open>modPow x y N\<close> returns
  the residue \<open>x ^ y mod N\<close>. It throws the RangeError \<open>n must be > 1\<close> exactly when
  \<open>N \<le> 1\<close>. For \<open>N > 1\<close> and a nonzero exponent it throws at all exactly when the
  exponent is negative and \<open>x\<close> has no inverse modulo \<open>N\<close>. Whenever
  \<open>modPow x (- y) N\<close> returns a value and \<open>modInv\<close> of the value of \<open>modPow x y N\<close>
  returns one, the two values are equal.

  For \<open>N > 1\<close> and a negative exponent the call returns, and its outcome is the outcome
  of \<open>modInv\<close> on the residue \<open>x ^ (- y) mod N\<close>: when \<open>x\<close> is coprime to \<open>N\<close>, the
  value \<open>r\<close> with \<open>0 \<le> r < N\<close> and \<open>r * x ^ (- y) mod N = 1\<close>; otherwise the
  RangeError of \<open>modInv\<close>, whose message is \<open>a and b MUST be > 0\<close> when the residue is 0
  and names the residue and the modulus when it is not. So for a positive exponent
  \<open>modPow x (- y) N\<close> is the outcome of \<open>modInv\<close> on the value of \<open>modPow x y N\<close>,
  value or error; and for a negative exponent with \<open>x\<close> coprime to \<open>N\<close> both calls
  return and \<open>modInv\<close> of the value of \<open>modPow x y N\<close> is the value of
  \<open>modPow x (- y) N\<close>. For the exponent 0 the call never returns.
\<close>

theorem modPow_spec:
  "(1 < N \<and> 0 < y \<longrightarrow> modPow x y N = Some (Inr (x ^ nat y mod N)))
   \<and> (modPow x y N = Some (Inl (RangeError ''n must be > 1'')) \<longleftrightarrow> N \<le> 1)
   \<and> (1 < N \<and> y \<noteq> 0 \<longrightarrow> (throws (modPow x y N) \<longleftrightarrow> y < 0 \<and> gcd x N \<noteq> 1))
   \<and> (\<forall>r p q. modPow x (- y) N = Some (Inr r) \<and> modPow x y N = Some (Inr p)
                \<and> modInv p N = Inr q \<longrightarrow> r = q)
   \<and> (1 < N \<and> y < 0 \<longrightarrow> modPow x y N = Some (modInv (x ^ nat (- y) mod N) N))
   \<and> (1 < N \<and> y < 0 \<and> gcd x N = 1 \<longrightarrow>
        (\<exists>r. modPow x y N = Some (Inr r) \<and> 0 \<le> r \<and> r < N
              \<and> (r * x ^ nat (- y)) mod N = 1))
   \<and> (1 < N \<and> y < 0 \<and> gcd x N \<noteq> 1 \<longrightarrow>
        modPow x y N
          = Some (Inl (RangeError
              (if x ^ nat (- y) mod N = 0 then ''a and b MUST be > 0''
               else BI_toString 10 (x ^ nat (- y) mod N) @ '' does not have inverse modulo ''
                    @ BI_toString 10 N))))
   \<and> (1 < N \<and> 0 < y \<longrightarrow> modPow x (- y) N = Some (modInv (x ^ nat y mod N) N))
   \<and> (1 < N \<and> y < 0 \<and> gcd x N = 1 \<longrightarrow>
        (\<exists>p. modPow x y N = Some (Inr p)
              \<and> modPow x (- y) N = Some (Inr (x ^ nat (- y) mod N))
              \<and> modInv p N = Inr (x ^ nat (- y) mod N)))
   \<and> (1 < N \<and> y = 0 \<longrightarrow> modPow x y N = None)"
proof (intro conjI impI allI)
  assume "1 < N \<and> 0 < y"
  then show "modPow x y N = Some (Inr (x ^ nat y mod N))"
    using modPow_pos [of N y x] by simp
next
  show "modPow x y N = Some (Inl (RangeError ''n must be > 1'')) \<longleftrightarrow> N \<le> 1"
    by (rule modPow_modulus_error_iff)
next
  assume "1 < N \<and> y \<noteq> 0"
  then show "throws (modPow x y N) \<longleftrightarrow> y < 0 \<and> gcd x N \<noteq> 1"
    using modPow_throws_iff [of N y x] by simp
next
  fix r p q
  assume "modPow x (- y) N = Some (Inr r) \<and> modPow x y N = Some (Inr p) \<and> modInv p N = Inr q"
  then show "r = q"
    using modPow_neg_is_inverse [of x y N r p q] by simp
next
  assume "1 < N \<and> y < 0"
  then show "modPow x y N = Some (modInv (x ^ nat (- y) mod N) N)"
    using modPow_neg [of N y x] by simp
next
  assume "1 < N \<and> y < 0 \<and> gcd x N = 1"
  then show "\<exists>r. modPow x y N = Some (Inr r) \<and> 0 \<le> r \<and> r < N
                 \<and> (r * x ^ nat (- y)) mod N = 1"
    using modPow_neg_coprime [of N y x] by simp
next
  assume "1 < N \<and> y < 0 \<and> gcd x N \<noteq> 1"
  then have a: "1 < N" "y < 0" "gcd x N \<noteq> 1" by simp_all
  show "modPow x y N
          = Some (Inl (RangeError
              (if x ^ nat (- y) mod N = 0 then ''a and b MUST be > 0''
               else BI_toString 10 (x ^ nat (- y) mod N) @ '' does not have inverse modulo ''
                    @ BI_toString 10 N)))"
    by (rule modPow_neg_not_coprime [OF a])
next
  assume "1 < N \<and> 0 < y"
  then show "modPow x (- y) N = Some (modInv (x ^ nat y mod N) N)"
    using modPow_neg [of N "- y" x] by simp
next
  assume "1 < N \<and> y < 0 \<and> gcd x N = 1"
  then have a: "1 < N" "y < 0" "gcd x N = 1" by simp_all
  show "\<exists>p. modPow x y N = Some (Inr p)
             \<and> modPow x (- y) N = Some (Inr (x ^ nat (- y) mod N))
             \<and> modInv p N = Inr (x ^ nat (- y) mod N)"
    by (rule modPow_inverse_of_neg [OF a])
next
  assume "1 < N \<and> y = 0"
  then show "modPow x y N = None"
    using modPow_zero_None [of N x] by simp
qed

theorem modPow_spec_witness:
  "(1::int) < 7 \<and> (0::int) < 2 \<and> modPow 3 2 7 = Some (Inr 2)
   \<and> modPow 3 2 1 = Some (Inl (RangeError ''n must be > 1''))
   \<and> \<not> throws (modPow 3 (- 1) 7) \<and> throws (modPow 2 (- 1) 4)
   \<and> modPow 3 (- 2) 7 = Some (Inr 4) \<and> modInv 2 7 = Inr 4
   \<and> modPow 3 (- 2) 7 = Some (modInv 2 7)
   \<and> modPow 2 (- 1) 4 = Some (Inl (RangeError ''2 does not have inverse modulo 4''))
   \<and> modPow 2 (- 2) 4 = Some (Inl (RangeError ''a and b MUST be > 0''))
   \<and> modPow 3 0 7 = None"
proof -
  have g: "gcd (3::int) 7 = 1" "gcd (2::int) 4 \<noteq> 1" by code_simp+
  have e: "modPow 3 (- 2) 7 = Some (Inr 4)" "modInv 2 7 = Inr 4" by code_simp+
  have s: "BI_toString 10 2 = ''2''" "BI_toString 10 4 = ''4''" by code_simp+
  have 1: "modPow 3 2 7 = Some (Inr 2)"
    using conjunct1 [OF modPow_spec [of 7 2 3]] by simp
  have 2: "modPow 3 2 1 = Some (Inl (RangeError ''n must be > 1''))"
    using conjunct1 [OF conjunct2 [OF modPow_spec [of 1 2 3]]] by simp
  have 3: "\<not> throws (modPow 3 (- 1) 7)"
    using conjunct1 [OF conjunct2 [OF conjunct2 [OF modPow_spec [of 7 "- 1" 3]]]] g by simp
  have 4: "throws (modPow 2 (- 1) 4)"
    using conjunct1 [OF conjunct2 [OF conjunct2 [OF modPow_spec [of 4 "- 1" 2]]]] g by simp
  note c5 = conjunct2 [OF conjunct2 [OF conjunct2 [OF conjunct2 [OF modPow_spec]]]]
  note c7 = conjunct2 [OF conjunct2 [OF c5]]
  note c10 = conjunct2 [OF conjunct2 [OF conjunct2 [OF c7]]]
  have 5: "modPow 3 (- 2) 7 = Some (modInv 2 7)"
    using conjunct1 [OF c5 [of 7 "- 2" 3]] by simp
  have 6: "modPow 2 (- 1) 4 = Some (Inl (RangeError ''2 does not have inverse modulo 4''))"
    using conjunct1 [OF c7 [of 4 "- 1" 2]] g s by simp
  have 7: "modPow 2 (- 2) 4 = Some (Inl (RangeError ''a and b MUST be > 0''))"
    using conjunct1 [OF c7 [of 4 "- 2" 2]] g by simp
  have 8: "modPow 3 0 7 = None"
    using c10 [of 7 0 3] by simp
  show ?thesis using 1 2 3 4 5 6 7 8 e by simp
qed

text \<open>
  C2 as stated says that \<open>modPow\<close> throws exactly when \<open>N \<le> 1\<close>. With \<open>x = 2\<close>,
  \<open>y = - 1\<close>, \<open>N = 4\<close> the modulus is greater than 1 and the call throws, because 2 has
  no inverse modulo 4.
\<close>

theorem modPow_throws_counterexample:
  "\<not> (throws (modPow 2 (- 1) 4) \<longleftrightarrow> (4::int) \<le> 1)"
  by code_simp

text \<open>
  C3. The claim is that \<open>modPow x 0 N\<close> returns 1 when \<open>N > 1\<close>. The test
  \<open>y \<le> ZERO\<close> sends the exponent 0 to the recursive call \<open>modPow base (abs 0) N\<close>,
  whose exponent is 0 again: the call never returns.
\<close>

theorem modPow_zero_exponent_diverges: "1 < N \<Longrightarrow> modPow x 0 N = None"
  by (rule modPow_zero_None)

theorem modPow_zero_exponent_diverges_witness: "(1::int) < 5 \<and> modPow 2 0 5 = None"
  using modPow_zero_exponent_diverges [of 5 2] by simp

subsection \<open>Claims about the codec\<close>

text \<open>
  C8. \<open>trimHexZeroes\<close> strips the leading zero digits and puts exactly one back when
  the remaining digit count is odd; its result has an even number of digits and at most one
  leading zero digit. \<open>hexOfBase64\<close> applies it to the hexadecimal text of the decoded
  bytes, so its result has both properties too.
\<close>

theorem trimHexZeroes_canonical:
  "trimHexZeroes inp = canonical_hex_spec inp
   \<and> even (length (trimHexZeroes inp))
   \<and> length (takeWhile (\<lambda>c. c = CHR ''0'') (trimHexZeroes inp)) \<le> 1
   \<and> hexOfBase64 b64 = trimHexZeroes (hexOfArray (arrayOfBase64 b64))
   \<and> even (length (hexOfBase64 b64))
   \<and> length (takeWhile (\<lambda>c. c = CHR ''0'') (hexOfBase64 b64)) \<le> 1"
  unfolding hexOfBase64_def trimHexZeroes_eq_spec
  by (intro conjI refl canonical_hex_spec_even canonical_hex_spec_leading)

text \<open>
  C9. Decoding the base64 text of a byte array gives the array back, whatever its bytes
  (leading zero bytes included) and whatever its length.
\<close>

theorem base64_roundtrip: "arrayOfBase64 (base64OfArray bytes) = bytes"
  by (rule arrayOfBase64_base64OfArray)

subsection \<open>Claims about the handshake\<close>

text \<open>
  C1. The claim is that \<open>step1\<close> reports a server value \<open>B\<close> with \<open>B mod N = 0\<close> as a
  failure result, never as an exception. The library writes the integer 0 as the empty
  base64 string (\<open>base64OfBigInt 0\<close>), and on that string \<open>bigintOfBase64\<close> hands
  \<open>0x\<close> to \<open>BI.BigInt\<close>, which throws a SyntaxError: whenever the run of \<open>step1\<close>
  gets as far as decoding \<open>B\<close>, the call throws and returns no result.
\<close>

theorem step1_empty_server_value_throws:
  assumes "randomA E (s\<lparr>this_I := identity, this_P := password\<rparr>) = Some (Inr a)"
    and "modPow (this_g s) a (this_N s) = Some (Inr ANum)"
  shows "base64OfBigInt 0 = []
         \<and> step1 E s identity password saltB64 []
             = Some (Inl (SyntaxError ''Cannot convert 0x to a BigInt''),
                     s\<lparr>this_I := identity, this_P := password\<rparr>)"
  using step1_empty_B [OF assms] b64_zero by simp

theorem step1_empty_server_value_throws_witness:
  "randomA demo_platform (fresh_session\<lparr>this_I := ''alice'', this_P := ''pw''\<rparr>) = Some (Inr 9)
   \<and> modPow (this_g fresh_session) 9 (this_N fresh_session) = Some (Inr 11)
   \<and> base64OfBigInt 0 = []
   \<and> step1 demo_platform fresh_session ''alice'' ''pw'' ''AAAA'' []
       = Some (Inl (SyntaxError ''Cannot convert 0x to a BigInt''),
               fresh_session\<lparr>this_I := ''alice'', this_P := ''pw''\<rparr>)"
proof -
  have m: "modPow (this_g fresh_session) 9 (this_N fresh_session) = Some (Inr 11)"
    by code_simp
  show ?thesis
    using step1_empty_server_value_throws [OF randomA_demo_platform m, of "''AAAA''"]
      randomA_demo_platform m
    by simp
qed

text \<open>
  C4. The claim is that \<open>step2\<close> fails exactly when the server's evidence differs from
  the expected one. \<open>step2\<close> compares the full hexadecimal text of the expected digest
  with the canonical, zero-stripped text of the server's bytes. When the expected digest
  begins with a zero byte the two texts differ even if the server sent exactly the expected
  bytes, and \<open>step2\<close> answers \<open>Bad server credentials (M2)\<close>.
\<close>

theorem step2_rejects_matching_evidence:
  assumes "step1 E s0 identity password saltB64 serverBB64 = Some (Inr (Ok d), s)"
    and "hash E (this_AHex s @ this_M1Hex s @ nonprefixedHexOfPositiveBI (this_S s)) = 0 # rest"
  shows "arrayOfBase64 (base64OfArray (0 # rest)) = 0 # rest
         \<and> fst (step2 E s (base64OfArray (0 # rest))) = Inr (Fail ''Bad server credentials (M2)'')"
  using step2_leading_zero_byte [OF assms(2)] arrayOfBase64_base64OfArray by simp

theorem step2_rejects_matching_evidence_witness:
  "step1 demo_platform_zero fresh_session ''alice'' ''pw'' ''AAAA'' ''Bw==''
     = Some (Inr (Ok \<lparr>AB64 = ''DQ=='', M1B64 = ''AF1dXV1dXV1dXV1dXV1dXV1dXV1dXV1dXV1dXV1dXV0=''\<rparr>),
             session_after_step1)
   \<and> hash demo_platform_zero (this_AHex session_after_step1 @ this_M1Hex session_after_step1
                         @ nonprefixedHexOfPositiveBI (this_S session_after_step1)) = 0 # replicate 31 0x5d
   \<and> arrayOfBase64 (base64OfArray (0 # replicate 31 0x5d)) = 0 # replicate 31 0x5d
   \<and> fst (step2 demo_platform_zero session_after_step1 (base64OfArray (0 # replicate 31 0x5d)))
         = Inr (Fail ''Bad server credentials (M2)'')"
  using step2_rejects_matching_evidence [OF step1_demo_platform_zero hash_demo_platform_zero]
    step1_demo_platform_zero hash_demo_platform_zero
  by simp




text \<open>
  C10. \<open>step2\<close> leaves every field of the session as it was, whatever it returns, so
  a second call with the same argument returns the same result.
\<close>

theorem step2_frame:
  "snd (step2 E s serverM2B64) = s
   \<and> step2 E (snd (step2 E s serverM2B64)) serverM2B64 = step2 E s serverM2B64"
  by (simp add: step2_def Let_def)

end
